theory Spec2Isabelle
  imports Main
begin

section \<open>The crop layer: data model\<close>

text \<open>
  The layer of \<^verbatim>\<open>src/caffe/layers/crop_layer.cpp\<close> crops the blob \<^verbatim>\<open>bottom[0]\<close> to the
  extents of the blob \<^verbatim>\<open>bottom[1]\<close>, from a start axis on, and writes the result to
  \<^verbatim>\<open>top[0]\<close>.

  Conventions of the embedding.
  \<^item> A blob is its shape (\<open>nat list\<close>: the container keeps every extent non-negative) and
    its row-major buffer (\<open>'a list\<close>), passed separately; the element type \<open>Dtype\<close> is
    a type variable, since the layer only copies elements and writes zeros.
  \<^item> \<^verbatim>\<open>int_tp\<close> values that the code subtracts or may compare with zero (offsets,
    index vectors) are \<open>int\<close>; loop counters that start at zero and count up are \<open>nat\<close>.
  \<^item> The \<^verbatim>\<open>offset\<close> field of the parameter message is a list of 32-bit unsigned values
    (\<open>nat list\<close>; an entry stands for its value modulo \<open>2 ^ 32\<close>). Where the code assigns
    one to an \<^verbatim>\<open>int_tp\<close>, the conversion to the signed 32-bit index type is written out
    (\<open>to_int_tp\<close>): an offset of \<open>2 ^ 31\<close> or more becomes negative.
  \<^item> Extents and the subtraction of line 67 are taken in the integers. An extent is below
    \<open>2 ^ 31\<close> in the container, so the subtraction can leave the index type only for an
    offset that has become negative; that overflow, undefined in the source, is not modelled.
  \<^item> A failed \<^verbatim>\<open>CHECK\<close> ends the call. It is a value \<open>Inl\<close> of the result; for
    \<open>Reshape\<close>, which writes the member \<^verbatim>\<open>offsets\<close> while it checks, the failure
    carries the state of the layer at the moment the check fires.
\<close>

datatype error =
    AxisOutOfRange \<comment> \<open>\<^verbatim>\<open>Blob::CanonicalAxisIndex\<close>: the axis is not in \<open>[-rank, rank)\<close>\<close>
  | WrongBottomCount \<comment> \<open>"Wrong number of bottom blobs."\<close>
  | CropAxisTooBig \<comment> \<open>"crop axis bigger than input dim"\<close>
  | OffsetCountMismatch \<comment> \<open>"number of offset values specified must be equal to ..."\<close>
  | InvalidCropParameters nat \<comment> \<open>"invalid crop parameters in dimension: " i\<close>
  | OffsetIndexOutOfRange \<comment> \<open>\<^verbatim>\<open>param.offset(k)\<close> with \<open>k\<close> not below \<^verbatim>\<open>offset_size()\<close>\<close>
  | BlobIndexOutOfRange \<comment> \<open>\<^verbatim>\<open>Blob::offset\<close>: more indices than axes, or an index outside its extent\<close>
  | VectorIndexOutOfRange \<comment> \<open>a \<^verbatim>\<open>std::vector\<close> read or written outside its size\<close>
  | BufferOutOfRange \<comment> \<open>a bulk copy or fill that leaves its buffer\<close>

record crop_param =
  axis :: int
  offset :: "nat list"

record crop_state =
  offsets :: "int list" \<comment> \<open>the member \<^verbatim>\<open>offsets\<close> of the layer\<close>
  top_shape :: "nat list" \<comment> \<open>the shape of \<^verbatim>\<open>top[0]\<close>\<close>

section \<open>The blob primitives the layer calls\<close>

text \<open>
  Modelled from the spec: \<^verbatim>\<open>Blob::CanonicalAxisIndex\<close> (declared in
  \<^verbatim>\<open>caffe/blob.hpp\<close>, which is not among the sources). The spec: the axis is a signed
  specifier "resolved against rank (supporting negative indexing meaning from the last
  dimension)", and an axis out of \<open>[0, rank)\<close> after resolution is an error.
\<close>

definition CanonicalAxisIndex :: "nat list \<Rightarrow> int \<Rightarrow> error + nat" where
  "CanonicalAxisIndex shp axis_index =
     (if axis_index < - int (length shp) \<or> \<not> axis_index < int (length shp)
      then Inl AxisOutOfRange
      else if axis_index < 0 then Inr (nat (axis_index + int (length shp)))
      else Inr (nat axis_index))"

text \<open>
  Modelled from the spec: \<^verbatim>\<open>Blob::shape(index)\<close>, the read of one extent of a shape
  (the container is not among the sources; the spec names its shape bookkeeping a trusted
  primitive and says no more). As in the container, the index is resolved as an axis is, so
  a read at or past the rank is a failed check.
\<close>

definition shape_at :: "nat list \<Rightarrow> int \<Rightarrow> error + nat" where
  "shape_at shp index =
     (case CanonicalAxisIndex shp index of
        Inl e \<Rightarrow> Inl e
      | Inr k \<Rightarrow> Inr (shp ! k))"

text \<open>\<^verbatim>\<open>Blob::count()\<close>: the number of elements, the product of the extents.\<close>

definition count :: "nat list \<Rightarrow> nat" where
  "count shp = prod_list shp"

section \<open>LayerSetUp and Reshape\<close>

text \<open>\<^verbatim>\<open>LayerSetUp\<close> (lines 15 to 34); \<open>bottom\<close> is the list of the bottom blobs' shapes.\<close>

definition LayerSetUp :: "crop_param \<Rightarrow> nat list list \<Rightarrow> error + unit" where
  "LayerSetUp param bottom =
     (if length bottom \<noteq> 2 then Inl WrongBottomCount
      else
        let input_dim = length (bottom ! 0) in
        (case CanonicalAxisIndex (bottom ! 0) (axis param) of
           Inl e \<Rightarrow> Inl e
         | Inr start_axis \<Rightarrow>
             if \<not> start_axis < input_dim then Inl CropAxisTooBig
             else if length (offset param) > 1 \<and> start_axis + length (offset param) \<noteq> input_dim
               then Inl OffsetCountMismatch
             else Inr ()))"

text \<open>
  Modelled from the spec: the index type \<^verbatim>\<open>int_tp\<close>, whose declaration is not among the
  sources. The spec leaves its width open and notes that "negative or out-of-range offsets
  are only validated against the fits inside source invariant". It is taken as the signed
  32-bit integer of the default build: \<open>to_int_tp\<close> is the conversion of a 32-bit unsigned
  value to it, which keeps the bits.
\<close>

definition to_int_tp :: "nat \<Rightarrow> int" where
  "to_int_tp n =
     (if n mod 2 ^ 32 < 2 ^ 31 then int (n mod 2 ^ 32) else int (n mod 2 ^ 32) - 2 ^ 32)"

text \<open>
  The choice of the crop offset of a dimension \<open>i \<ge> start_axis\<close> (lines 55 to 63); the
  assignment to \<^verbatim>\<open>int_tp crop_offset\<close> converts the unsigned value.
  \<^verbatim>\<open>param.offset(k)\<close> outside the list is a failure of the model.
\<close>

definition crop_offset_at :: "crop_param \<Rightarrow> nat \<Rightarrow> nat \<Rightarrow> error + int" where
  "crop_offset_at param start_axis i =
     (if length (offset param) = 1 then Inr (to_int_tp (offset param ! 0))
      else if length (offset param) > 1 then
        (if i - start_axis < length (offset param)
         then Inr (to_int_tp (offset param ! (i - start_axis)))
         else Inl OffsetIndexOutOfRange)
      else Inr 0)"

text \<open>
  The body of the loop over the dimensions up to the check (lines 50 to 69): the new size and
  the crop offset of dimension \<open>i\<close>, or the check that fails.
\<close>

definition Reshape_dim ::
  "crop_param \<Rightarrow> nat list \<Rightarrow> nat list \<Rightarrow> nat \<Rightarrow> nat \<Rightarrow> error + (nat \<times> int)" where
  "Reshape_dim param b0 b1 start_axis i =
     (case shape_at b0 (int i) of
        Inl e \<Rightarrow> Inl e
      | Inr d0 \<Rightarrow>
          (case (if i \<ge> start_axis then
                   (case shape_at b1 (int i) of
                      Inl e \<Rightarrow> Inl e
                    | Inr d1 \<Rightarrow>
                        (case crop_offset_at param start_axis i of
                           Inl e \<Rightarrow> Inl e
                         | Inr c \<Rightarrow> Inr (d1, c)))
                 else Inr (d0, 0)) of
             Inl e \<Rightarrow> Inl e
           | Inr (new_size, crop_offset) \<Rightarrow>
               (case shape_at b1 (int i) of
                  Inl e \<Rightarrow> Inl e
                | Inr r \<Rightarrow>
                    if int d0 - crop_offset \<ge> int r then Inr (new_size, crop_offset)
                    else Inl (InvalidCropParameters i))))"

text \<open>
  The loop of lines 49 to 73, from dimension \<open>i\<close> on. It updates the local \<open>new_shape\<close> and
  the member \<open>offsets\<close>; a failed check returns the layer as it is then.
\<close>

function Reshape_loop ::
  "crop_param \<Rightarrow> nat list \<Rightarrow> nat list \<Rightarrow> nat \<Rightarrow> nat \<Rightarrow> nat list \<Rightarrow> crop_state
     \<Rightarrow> (error \<times> crop_state) + (nat list \<times> crop_state)" where
  "Reshape_loop param b0 b1 start_axis i new_shape s =
     (if i < length b0 then
        (case Reshape_dim param b0 b1 start_axis i of
           Inl e \<Rightarrow> Inl (e, s)
         | Inr (new_size, crop_offset) \<Rightarrow>
             Reshape_loop param b0 b1 start_axis (Suc i) (new_shape[i := new_size])
               (s\<lparr>offsets := (offsets s)[i := crop_offset]\<rparr>))
      else Inr (new_shape, s))"
  by pat_completeness auto
termination
  by (relation "measure (\<lambda>(param, b0, b1, start_axis, i, new_shape, s). length b0 - i)") auto

declare Reshape_loop.simps [simp del]

text \<open>
  \<^verbatim>\<open>Reshape\<close> (lines 36 to 75); \<open>b0\<close> and \<open>b1\<close> are the shapes of \<^verbatim>\<open>bottom[0]\<close> and
  \<^verbatim>\<open>bottom[1]\<close>. The last line, \<^verbatim>\<open>top[0]->Reshape(new_shape)\<close>, sets the shape of the output.
\<close>

definition Reshape ::
  "crop_param \<Rightarrow> nat list \<Rightarrow> nat list \<Rightarrow> crop_state \<Rightarrow> (error \<times> crop_state) + crop_state" where
  "Reshape param b0 b1 s =
     (case CanonicalAxisIndex b0 (axis param) of
        Inl e \<Rightarrow> Inl (e, s)
      | Inr start_axis \<Rightarrow>
          (case Reshape_loop param b0 b1 start_axis 0 b0
                  (s\<lparr>offsets := replicate (length b0) 0\<rparr>) of
             Inl es \<Rightarrow> Inl es
           | Inr (new_shape, s') \<Rightarrow> Inr (s'\<lparr>top_shape := new_shape\<rparr>)))"

section \<open>The region copier and its drivers\<close>

text \<open>
  Modelled from the spec: \<^verbatim>\<open>Blob::offset(indices)\<close> (the container is not among the
  sources). The spec: the layout is row-major, "the last dimension is the fastest-varying",
  and the container's "strided linear-offset computation" is a trusted primitive. The
  offset is accumulated over all axes; an axis past the end of the index vector counts as
  index zero; more indices than axes, or an index outside \<open>[0, extent)\<close>, is a failed check.
\<close>

fun offset_loop :: "nat list \<Rightarrow> int list \<Rightarrow> nat \<Rightarrow> error + nat" where
  "offset_loop [] indices acc = Inr acc"
| "offset_loop (d # ds) [] acc = offset_loop ds [] (acc * d)"
| "offset_loop (d # ds) (x # xs) acc =
     (if 0 \<le> x \<and> x < int d then offset_loop ds xs (acc * d + nat x)
      else Inl BlobIndexOutOfRange)"

definition Blob_offset :: "nat list \<Rightarrow> int list \<Rightarrow> error + nat" where
  "Blob_offset shp indices =
     (if length indices \<le> length shp then offset_loop shp indices 0
      else Inl BlobIndexOutOfRange)"

text \<open>
  A destination buffer, with the number of bulk copies made into it so far (a counter of
  the model, which the code does not keep).
\<close>

record 'a mem =
  data :: "'a list"
  copies :: nat

text \<open>
  Modelled from the spec: \<^verbatim>\<open>caffe_copy(n, X + xo, Y + yo)\<close>, "one bulk contiguous copy" of
  \<open>n\<close> elements (the routine is not among the sources). A copy that would leave either
  buffer is a failure of the model. \<^verbatim>\<open>caffe_set(n, alpha, Y)\<close> fills the first \<open>n\<close>
  elements with \<open>alpha\<close>.
\<close>

definition caffe_copy :: "nat \<Rightarrow> 'a list \<Rightarrow> nat \<Rightarrow> 'a mem \<Rightarrow> nat \<Rightarrow> error + 'a mem" where
  "caffe_copy n X xo m yo =
     (if xo + n \<le> length X \<and> yo + n \<le> length (data m)
      then Inr \<lparr>data = take yo (data m) @ take n (drop xo X) @ drop (yo + n) (data m),
                copies = Suc (copies m)\<rparr>
      else Inl BufferOutOfRange)"

definition caffe_set :: "nat \<Rightarrow> 'a \<Rightarrow> 'a list \<Rightarrow> error + 'a list" where
  "caffe_set n alpha Y =
     (if n \<le> length Y then Inr (replicate n alpha @ drop n Y) else Inl BufferOutOfRange)"

text \<open>
  \<^verbatim>\<open>for (i = i0; i < n; ++i) body\<close>, where the body may fail: the loop stops at the first
  failure.
\<close>

function for_loop :: "nat \<Rightarrow> nat \<Rightarrow> (nat \<Rightarrow> 's \<Rightarrow> error + 's) \<Rightarrow> 's \<Rightarrow> error + 's" where
  "for_loop i n body s =
     (if i < n then
        (case body i s of
           Inl e \<Rightarrow> Inl e
         | Inr s' \<Rightarrow> for_loop (Suc i) n body s')
      else Inr s)"
  by pat_completeness auto
termination
  by (relation "measure (\<lambda>(i, n, body, s). n - i)") auto

declare for_loop.simps [simp del]

text \<open>
  The body of the loop at the last dimension (lines 97 to 116): the two index vectors, the
  two linear offsets and the bulk copy of one row. \<open>indices[j]\<close> and \<open>offsets[j]\<close> are read
  for \<open>j < cur_dim\<close>, and \<open>offsets[cur_dim]\<close>; a read outside a vector is a failure of the
  model. The loop counter does not occur in the body.
\<close>

definition crop_copy_row ::
  "nat list \<Rightarrow> nat list \<Rightarrow> int list \<Rightarrow> int list \<Rightarrow> nat \<Rightarrow> 'a list \<Rightarrow> bool \<Rightarrow> 'a mem
     \<Rightarrow> error + 'a mem" where
  "crop_copy_row bshape tshape offs indices cur_dim src_data is_forward m =
     (if cur_dim \<le> length indices \<and> cur_dim < length offs then
        let ind_red = map (\<lambda>j. indices ! j) [0..<cur_dim];
            ind_off = map (\<lambda>j. indices ! j + offs ! j) [0..<cur_dim] @ [offs ! cur_dim]
        in
        (case shape_at tshape (int cur_dim) of
           Inl e \<Rightarrow> Inl e
         | Inr n \<Rightarrow>
             (case Blob_offset bshape ind_off of
                Inl e \<Rightarrow> Inl e
              | Inr off_b \<Rightarrow>
                  (case Blob_offset tshape ind_red of
                     Inl e \<Rightarrow> Inl e
                   | Inr off_t \<Rightarrow>
                       if is_forward then caffe_copy n src_data off_b m off_t
                       else caffe_copy n src_data off_t m off_b)))
      else Inl VectorIndexOutOfRange)"

text \<open>
  \<^verbatim>\<open>crop_copy\<close> (lines 78 to 119). \<open>bshape\<close> and \<open>tshape\<close> are the shapes of
  \<^verbatim>\<open>bottom[0]\<close> and \<^verbatim>\<open>top[0]\<close>; \<open>m\<close> is the destination. The index vector is passed by
  value, so each call works on its own copy.
\<close>

function crop_copy ::
  "nat list \<Rightarrow> nat list \<Rightarrow> int list \<Rightarrow> int list \<Rightarrow> nat \<Rightarrow> 'a list \<Rightarrow> bool \<Rightarrow> 'a mem
     \<Rightarrow> error + 'a mem" where
  "crop_copy bshape tshape offs indices cur_dim src_data is_forward m =
     (if cur_dim + 1 < length tshape then
        (case shape_at tshape (int cur_dim) of
           Inl e \<Rightarrow> Inl e
         | Inr n \<Rightarrow>
             for_loop 0 n
               (\<lambda>i m'. if cur_dim < length indices
                        then crop_copy bshape tshape offs (indices[cur_dim := int i])
                               (cur_dim + 1) src_data is_forward m'
                        else Inl VectorIndexOutOfRange)
               m)
      else
        (case shape_at tshape (int cur_dim) of
           Inl e \<Rightarrow> Inl e
         | Inr n \<Rightarrow>
             for_loop 0 n
               (\<lambda>i m'. crop_copy_row bshape tshape offs indices cur_dim src_data is_forward m')
               m))"
  by pat_completeness auto
termination
  by (relation "measure (\<lambda>(bshape, tshape, offs, indices, cur_dim, src_data, is_forward, m).
                            length tshape - cur_dim)") auto

declare crop_copy.simps [simp del]

text \<open>\<^verbatim>\<open>Forward_cpu\<close> (lines 121 to 128).\<close>

definition Forward_cpu ::
  "nat list \<Rightarrow> nat list \<Rightarrow> int list \<Rightarrow> 'a list \<Rightarrow> 'a list \<Rightarrow> error + 'a mem" where
  "Forward_cpu bshape tshape offs bottom_data top_data =
     crop_copy bshape tshape offs (replicate (length tshape) 0) 0 bottom_data True
       \<lparr>data = top_data, copies = 0\<rparr>"

text \<open>
  \<^verbatim>\<open>Backward_cpu\<close> (lines 130 to 141); \<open>propagate_down\<close> is \<^verbatim>\<open>propagate_down[0]\<close>.
\<close>

definition Backward_cpu ::
  "nat list \<Rightarrow> nat list \<Rightarrow> int list \<Rightarrow> bool \<Rightarrow> 'a::zero list \<Rightarrow> 'a list \<Rightarrow> error + 'a mem" where
  "Backward_cpu bshape tshape offs propagate_down top_diff bottom_diff =
     (if propagate_down then
        (case caffe_set (count bshape) 0 bottom_diff of
           Inl e \<Rightarrow> Inl e
         | Inr zeroed \<Rightarrow>
             crop_copy bshape tshape offs (replicate (length tshape) 0) 0 top_diff False
               \<lparr>data = zeroed, copies = 0\<rparr>)
      else Inr \<lparr>data = bottom_diff, copies = 0\<rparr>)"

section \<open>Multi-indices and the window\<close>

text \<open>
  A multi-index lies within a shape when it has one entry per dimension, each below its
  extent. It lies inside the cropped window when, in every dimension, it is at least the
  offset and below the offset plus the output's extent.
\<close>

definition in_shape :: "nat list \<Rightarrow> nat list \<Rightarrow> bool" where
  "in_shape shp idx \<longleftrightarrow> list_all2 (\<lambda>x d. x < d) idx shp"

definition in_window :: "int list \<Rightarrow> nat list \<Rightarrow> nat list \<Rightarrow> bool" where
  "in_window offs tshape idx \<longleftrightarrow>
     list_all2 (\<lambda>x ct. fst ct \<le> int x \<and> int x < fst ct + int (snd ct)) idx (zip offs tshape)"

text \<open>
  The functions below are not part of the layer. They describe, on natural numbers, what the
  layer's primitives compute, and the proofs relate the code to them: \<open>lin\<close> is the
  row-major position of an index vector (an axis past the end of the vector counts as zero);
  \<open>window\<close> lists, in row-major order, the elements of the source inside the window;
  \<open>scatter\<close> lists a source-shaped buffer that holds the gradient inside the window and zero
  elsewhere; \<open>in_win\<close> is \<open>in_window\<close> for offsets that are natural numbers.
\<close>

fun lin :: "nat list \<Rightarrow> nat list \<Rightarrow> nat \<Rightarrow> nat" where
  "lin [] xs acc = acc"
| "lin (d # ds) [] acc = lin ds [] (acc * d)"
| "lin (d # ds) (x # xs) acc = lin ds xs (acc * d + x)"

fun window :: "nat list \<Rightarrow> nat list \<Rightarrow> nat list \<Rightarrow> nat \<Rightarrow> 'a list \<Rightarrow> 'a list" where
  "window (t # ts) (b # bs) (c # cs) L src =
     concat (map (\<lambda>i. window ts bs cs (L * b + (i + c)) src) [0..<t])"
| "window ts bs cs L src = [src ! L]"

fun scatter :: "nat list \<Rightarrow> nat list \<Rightarrow> nat list \<Rightarrow> nat \<Rightarrow> 'a list \<Rightarrow> 'a::zero list" where
  "scatter (t # ts) (b # bs) (c # cs) L g =
     replicate (c * prod_list bs) 0
     @ concat (map (\<lambda>i. scatter ts bs cs (L * t + i) g) [0..<t])
     @ replicate ((b - (c + t)) * prod_list bs) 0"
| "scatter ts bs cs L g = [g ! L]"

definition in_win :: "nat list \<Rightarrow> nat list \<Rightarrow> nat list \<Rightarrow> bool" where
  "in_win cs ts idx \<longleftrightarrow> list_all2 (\<lambda>x ct. fst ct \<le> x \<and> x < fst ct + snd ct) idx (zip cs ts)"

section \<open>Reshape: the loop over the dimensions\<close>

text \<open>
  A read of an extent at a loop counter succeeds exactly below the rank.
\<close>

lemma shape_at_nat:
  "shape_at shp (int i) = (if i < length shp then Inr (shp ! i) else Inl AxisOutOfRange)"
  by (simp add: shape_at_def CanonicalAxisIndex_def)

lemma to_int_tp_small: "n < 2 ^ 31 \<Longrightarrow> to_int_tp n = int n"
  by (simp add: to_int_tp_def)

lemma to_int_tp_eval:
  "to_int_tp 0 = 0" "to_int_tp (Suc 0) = 1" "to_int_tp 5 = 5" "to_int_tp 4294967295 = - 1"
  by (simp_all add: to_int_tp_def)

lemma crop_offset_at_nonneg:
  "crop_offset_at p a i = Inr c \<Longrightarrow> \<forall>k\<in>set (offset p). k < 2 ^ 31 \<Longrightarrow> 0 \<le> c"
  by (auto simp: crop_offset_at_def to_int_tp_small split: if_splits)

text \<open>
  When the body of the loop passes at a dimension, and what it yields.
\<close>

lemma Reshape_dim_Inr:
  "Reshape_dim p b0 b1 a i = Inr (sz, c) \<longleftrightarrow>
     i < length b0 \<and> i < length b1 \<and> int (b1 ! i) \<le> int (b0 ! i) - c \<and>
     (if a \<le> i then crop_offset_at p a i = Inr c \<and> sz = b1 ! i else c = 0 \<and> sz = b0 ! i)"
  by (auto simp: Reshape_dim_def shape_at_nat split: sum.splits if_splits)

text \<open>
  A loop that completes has passed the body at every dimension from \<open>i\<close> on, and has
  written the body's results there; earlier entries are untouched.
\<close>

lemma Reshape_loop_Inr:
  "Reshape_loop p b0 b1 a i ns s = Inr (ns', s') \<Longrightarrow>
     length ns = length b0 \<Longrightarrow> length (offsets s) = length b0 \<Longrightarrow>
     length ns' = length b0 \<and> length (offsets s') = length b0 \<and> top_shape s' = top_shape s \<and>
     (\<forall>j. i \<le> j \<and> j < length b0 \<longrightarrow> Reshape_dim p b0 b1 a j = Inr (ns' ! j, offsets s' ! j)) \<and>
     (\<forall>j < i. ns' ! j = ns ! j \<and> offsets s' ! j = offsets s ! j)"
proof (induction p b0 b1 a i ns s rule: Reshape_loop.induct)
  case (1 p b0 b1 a i ns s)
  show ?case
  proof (cases "i < length b0")
    case False
    with "1.prems" show ?thesis by (auto simp: Reshape_loop.simps)
  next
    case True
    from True "1.prems"(1) obtain sz c where d: "Reshape_dim p b0 b1 a i = Inr (sz, c)"
      and r: "Reshape_loop p b0 b1 a (Suc i) (ns[i := sz]) (s\<lparr>offsets := (offsets s)[i := c]\<rparr>) = Inr (ns', s')"
      by (subst (asm) Reshape_loop.simps) (auto split: sum.splits)
    from "1.IH"[OF True d refl r] "1.prems"(2,3)
    have ih: "length ns' = length b0" "length (offsets s') = length b0" "top_shape s' = top_shape s"
      "\<And>j. Suc i \<le> j \<Longrightarrow> j < length b0 \<Longrightarrow> Reshape_dim p b0 b1 a j = Inr (ns' ! j, offsets s' ! j)"
      "\<And>j. j < Suc i \<Longrightarrow> ns' ! j = ns[i := sz] ! j \<and> offsets s' ! j = (offsets s)[i := c] ! j"
      by auto
    have "Reshape_dim p b0 b1 a j = Inr (ns' ! j, offsets s' ! j)" if "i \<le> j" "j < length b0" for j
    proof (cases "j = i")
      case True
      with ih(5)[of i] d \<open>i < length b0\<close> "1.prems"(2,3) show ?thesis by simp
    next
      case False
      with that ih(4)[of j] show ?thesis by simp
    qed
    moreover have "ns' ! j = ns ! j \<and> offsets s' ! j = offsets s ! j" if "j < i" for j
      using ih(5)[of j] that by simp
    ultimately show ?thesis using ih(1,2,3) by blast
  qed
qed


text \<open>
  Conversely, the loop fails with the error of the first failing dimension.
\<close>

lemma Reshape_loop_first_failure:
  "i \<le> j \<Longrightarrow> j < length b0 \<Longrightarrow> Reshape_dim p b0 b1 a j = Inl e \<Longrightarrow>
   (\<forall>k. i \<le> k \<and> k < j \<longrightarrow> (\<exists>r. Reshape_dim p b0 b1 a k = Inr r)) \<Longrightarrow>
   \<exists>s'. Reshape_loop p b0 b1 a i ns s = Inl (e, s')"
proof (induction p b0 b1 a i ns s rule: Reshape_loop.induct)
  case (1 p b0 b1 a i ns s)
  from "1.prems" have True: "i < length b0" by simp
  show ?case
  proof (cases "i = j")
    case True
    with "1.prems" show ?thesis by (subst Reshape_loop.simps) simp
  next
    case False
    with "1.prems" obtain sz c where d: "Reshape_dim p b0 b1 a i = Inr (sz, c)" by fastforce
    from False "1.prems" have "Suc i \<le> j" by simp
    from "1.IH"[OF True d refl this "1.prems"(2,3)] "1.prems"(4)
    obtain s' where "Reshape_loop p b0 b1 a (Suc i) (ns[i := sz]) (s\<lparr>offsets := (offsets s)[i := c]\<rparr>) = Inl (e, s')"
      by auto
    with d True show ?thesis by (subst Reshape_loop.simps) simp
  qed
qed

lemma CanonicalAxisIndex_less: "CanonicalAxisIndex shp ax = Inr a \<Longrightarrow> a < length shp"
  by (auto simp: CanonicalAxisIndex_def split: if_splits)

lemma Reshape_Inr:
  assumes "Reshape p b0 b1 s = Inr s'"
  obtains a where "CanonicalAxisIndex b0 (axis p) = Inr a" "a < length b0"
    "length (top_shape s') = length b0" "length (offsets s') = length b0"
    "\<And>j. j < length b0 \<Longrightarrow> Reshape_dim p b0 b1 a j = Inr (top_shape s' ! j, offsets s' ! j)"
proof -
  from assms obtain a ns s1 where a: "CanonicalAxisIndex b0 (axis p) = Inr a"
    and l: "Reshape_loop p b0 b1 a 0 b0 (s\<lparr>offsets := replicate (length b0) 0\<rparr>) = Inr (ns, s1)"
    and s': "s' = s1\<lparr>top_shape := ns\<rparr>"
    by (auto simp: Reshape_def split: sum.splits)
  from Reshape_loop_Inr[OF l] s' have "length (top_shape s') = length b0" "length (offsets s') = length b0"
    "\<And>j. j < length b0 \<Longrightarrow> Reshape_dim p b0 b1 a j = Inr (top_shape s' ! j, offsets s' ! j)"
    by auto
  with a CanonicalAxisIndex_less[OF a] that show thesis by blast
qed


lemma Reshape_first_failure:
  assumes "CanonicalAxisIndex b0 (axis p) = Inr a" "j < length b0" "Reshape_dim p b0 b1 a j = Inl e"
    "\<forall>k<j. \<exists>r. Reshape_dim p b0 b1 a k = Inr r"
  shows "\<exists>s'. Reshape p b0 b1 s = Inl (e, s')"
proof -
  from Reshape_loop_first_failure[of 0 j b0 p b1 a e b0 "s\<lparr>offsets := replicate (length b0) 0\<rparr>"] assms
  obtain s' where "Reshape_loop p b0 b1 a 0 b0 (s\<lparr>offsets := replicate (length b0) 0\<rparr>) = Inl (e, s')"
    by auto
  with assms(1) show ?thesis by (simp add: Reshape_def)
qed

lemma least_failing_dim:
  assumes "i < length b0" "\<not> (\<exists>r. Reshape_dim p b0 b1 a i = Inr r)"
  obtains j e where "j \<le> i" "Reshape_dim p b0 b1 a j = Inl e" "\<forall>k<j. \<exists>r. Reshape_dim p b0 b1 a k = Inr r"
proof -
  define P where "P j \<longleftrightarrow> (\<nexists>r. Reshape_dim p b0 b1 a j = Inr r)" for j
  from assms have "P i" by (simp add: P_def)
  define j where "j = (LEAST j. P j)"
  have Pj: "P j" unfolding j_def using \<open>P i\<close> by (rule LeastI)
  have le: "j \<le> i" unfolding j_def using \<open>P i\<close> by (rule Least_le)
  have before: "\<forall>k<j. \<exists>r. Reshape_dim p b0 b1 a k = Inr r"
    using not_less_Least[of _ P] unfolding j_def P_def by blast
  from Pj obtain e where "Reshape_dim p b0 b1 a j = Inl e"
    unfolding P_def by (cases "Reshape_dim p b0 b1 a j") auto
  with le before that show thesis by blast
qed

lemmas reshape_eval = Reshape_def CanonicalAxisIndex_def Reshape_loop.simps Reshape_dim_def
  shape_at_def crop_offset_at_def to_int_tp_eval LayerSetUp_def

lemma crop_offset_at_earlier:
  assumes "crop_offset_at p a i = Inr c" "a \<le> j" "j \<le> i"
  shows "\<exists>c'. crop_offset_at p a j = Inr c'"
  using assms by (auto simp: crop_offset_at_def split: if_splits)

lemma Reshape_dim_Inl_fit:
  assumes "Reshape_dim p b0 b1 a j = Inl e" "j < length b0" "j < length b1"
    and "(if a \<le> j then crop_offset_at p a j else Inr 0) = Inr c"
  shows "e = InvalidCropParameters j \<and> int (b0 ! j) - c < int (b1 ! j)"
  using assms by (auto simp: Reshape_dim_def shape_at_nat split: sum.splits if_splits)

lemma fit_violation_fails:
  assumes a: "CanonicalAxisIndex b0 (axis p) = Inr a"
    and i: "i < length b0" "i < length b1"
    and c: "(if a \<le> i then crop_offset_at p a i else Inr 0) = Inr c"
    and v: "int (b0 ! i) - c < int (b1 ! i)"
  shows "\<exists>j\<le>i. \<exists>s' c'. Reshape p b0 b1 s = Inl (InvalidCropParameters j, s') \<and>
           (if a \<le> j then crop_offset_at p a j else Inr 0) = Inr c' \<and>
           int (b0 ! j) - c' < int (b1 ! j)"
proof -
  have "\<not> (\<exists>r. Reshape_dim p b0 b1 a i = Inr r)"
    using c v by (auto simp: Reshape_dim_Inr split: if_splits)
  with i(1) obtain j e where j: "j \<le> i" "Reshape_dim p b0 b1 a j = Inl e"
    "\<forall>k<j. \<exists>r. Reshape_dim p b0 b1 a k = Inr r"
    by (rule least_failing_dim)
  from j(1) i have lj: "j < length b0" "j < length b1" by simp_all
  have "\<exists>c'. (if a \<le> j then crop_offset_at p a j else Inr 0) = Inr c'"
  proof (cases "a \<le> j")
    case True
    with j(1) c crop_offset_at_earlier[of p a i c j] show ?thesis by (auto split: if_splits)
  next
    case False
    then show ?thesis by simp
  qed
  then obtain c' where c': "(if a \<le> j then crop_offset_at p a j else Inr 0) = Inr c'" ..
  from Reshape_dim_Inl_fit[OF j(2) lj c']
  have e: "e = InvalidCropParameters j" and v': "int (b0 ! j) - c' < int (b1 ! j)" by simp_all
  from Reshape_first_failure[OF a lj(1) j(2) j(3), of s] e
  obtain s' where "Reshape p b0 b1 s = Inl (InvalidCropParameters j, s')" by auto
  with j(1) c' v' show ?thesis by blast
qed

text \<open>
  The loop depends on the parameter only through the body at the dimensions it visits.
\<close>

lemma Reshape_loop_cong_dim:
  "(\<And>j. i \<le> j \<Longrightarrow> j < length b0 \<Longrightarrow> Reshape_dim p b0 b1 a j = Reshape_dim p' b0 b1 a j) \<Longrightarrow>
   Reshape_loop p b0 b1 a i ns s = Reshape_loop p' b0 b1 a i ns s"
proof (induction p b0 b1 a i ns s rule: Reshape_loop.induct)
  case (1 p b0 b1 a i ns s)
  show ?case
  proof (cases "i < length b0")
    case False
    then show ?thesis by (simp add: Reshape_loop.simps)
  next
    case True
    from "1.prems"[of i] True have d: "Reshape_dim p b0 b1 a i = Reshape_dim p' b0 b1 a i" by simp
    show ?thesis
    proof (cases "Reshape_dim p b0 b1 a i")
      case (Inl e)
      with d have "Reshape_dim p' b0 b1 a i = Inl e" by simp
      with Inl True show ?thesis by (simp add: Reshape_loop.simps)
    next
      case (Inr r)
      obtain sz c where r: "r = (sz, c)" by (cases r)
      have "Reshape_loop p b0 b1 a (Suc i) (ns[i := sz]) (s\<lparr>offsets := (offsets s)[i := c]\<rparr>)
          = Reshape_loop p' b0 b1 a (Suc i) (ns[i := sz]) (s\<lparr>offsets := (offsets s)[i := c]\<rparr>)"
        using "1.IH"[OF True Inr[unfolded r] refl] "1.prems" by simp
      moreover from d Inr r have "Reshape_dim p' b0 b1 a i = Inr (sz, c)" by simp
      ultimately show ?thesis using Inr r True
        by (subst Reshape_loop.simps, subst (2) Reshape_loop.simps) simp
    qed
  qed
qed

lemma Reshape_dim_broadcast:
  assumes "a < length b0" "j < length b0"
  shows "Reshape_dim (p\<lparr>offset := [k]\<rparr>) b0 b1 a j
       = Reshape_dim (p\<lparr>offset := replicate (length b0 - a) k\<rparr>) b0 b1 a j"
proof -
  have "crop_offset_at (p\<lparr>offset := [k]\<rparr>) a j
      = crop_offset_at (p\<lparr>offset := replicate (length b0 - a) k\<rparr>) a j" if "a \<le> j"
    using that assms by (auto simp: crop_offset_at_def)
  then show ?thesis by (cases "a \<le> j") (simp_all add: Reshape_dim_def cong: sum.case_cong if_cong)
qed

section \<open>Reshape: the claims\<close>

text \<open>
  Claim C3. After a successful \<open>Reshape\<close>, the output shape has one extent per source
  dimension; at every dimension \<open>i\<close> from the resolved axis \<open>a\<close> on it is the reference's
  extent, and at every dimension before the axis it is the source's extent.
\<close>

theorem reshape_output_shape:
  assumes "Reshape p b0 b1 s = Inr s'" and "CanonicalAxisIndex b0 (axis p) = Inr a"
    and "i < length b0"
  shows "length (top_shape s') = length b0 \<and> i < length b1 \<and>
         top_shape s' ! i = (if a \<le> i then b1 ! i else b0 ! i)"
proof -
  from assms(1) obtain a' where a': "CanonicalAxisIndex b0 (axis p) = Inr a'"
    and len: "length (top_shape s') = length b0"
    and d: "\<And>j. j < length b0 \<Longrightarrow> Reshape_dim p b0 b1 a' j = Inr (top_shape s' ! j, offsets s' ! j)"
    by (rule Reshape_Inr) blast
  from a' assms(2) have "a' = a" by simp
  with d[OF assms(3)] len show ?thesis by (auto simp: Reshape_dim_Inr split: if_splits)
qed

text \<open>
  The instance at the source \<open>[1, 3, 5, 5]\<close>, the reference \<open>[1, 3, 3, 3]\<close>, axis 2 and the
  offsets \<open>[1, 1]\<close>, at dimension 2.
\<close>

theorem reshape_output_shape_witness:
  "Reshape \<lparr>axis = 2, offset = [1, 1]\<rparr> [1, 3, 5, 5] [1, 3, 3, 3] \<lparr>offsets = [], top_shape = []\<rparr>
     = Inr \<lparr>offsets = [0, 0, 1, 1], top_shape = [1, 3, 3, 3]\<rparr> \<and>
   CanonicalAxisIndex [1, 3, 5, 5] 2 = Inr 2 \<and>
   top_shape \<lparr>offsets = [0, 0, 1, 1], top_shape = [1, 3, 3, 3]\<rparr> ! 2 = [1, 3, 3, 3] ! 2"
proof -
  have h: "Reshape \<lparr>axis = 2, offset = [1, 1]\<rparr> [1, 3, 5, 5] [1, 3, 3, 3]
             \<lparr>offsets = [], top_shape = []\<rparr>
           = Inr \<lparr>offsets = [0, 0, 1, 1], top_shape = [1, 3, 3, 3]\<rparr>"
    by (simp add: reshape_eval numeral_3_eq_3 eval_nat_numeral)
  have a: "CanonicalAxisIndex [1, 3, 5, 5] (axis \<lparr>axis = 2, offset = [1, 1]\<rparr>) = Inr 2"
    by (simp add: CanonicalAxisIndex_def)
  from reshape_output_shape[OF h a, of 2] h a show ?thesis by simp
qed

text \<open>
  Claim C6 says that after a successful \<open>Reshape\<close> no entry of the member \<open>offsets\<close> is
  negative. The configured offset is a 32-bit unsigned value and the member holds signed
  32-bit values: the offset \<open>4294967295\<close> is stored as \<open>-1\<close>, and the fit check of line 67
  passes for a source of shape \<open>[5]\<close> and a reference of shape \<open>[3]\<close>, since \<open>5 + 1 \<ge> 3\<close>.
\<close>

theorem reshape_negative_offset_counterexample:
  "Reshape \<lparr>axis = 0, offset = [4294967295]\<rparr> [5] [3] \<lparr>offsets = [], top_shape = []\<rparr>
     = Inr \<lparr>offsets = [-1], top_shape = [3]\<rparr> \<and>
   offsets \<lparr>offsets = [-1], top_shape = [3]\<rparr> ! 0 < 0"
  by (simp add: reshape_eval)

text \<open>
  Claim C6, as the code has it. After a successful \<open>Reshape\<close>, the member \<open>offsets\<close> has one
  entry per source dimension and every entry before the resolved axis \<open>a\<close> is zero; no entry
  is negative when every configured offset is below \<open>2 ^ 31\<close>.
\<close>

theorem reshape_offsets_invariant:
  assumes "Reshape p b0 b1 s = Inr s'" and "CanonicalAxisIndex b0 (axis p) = Inr a"
  shows "length (offsets s') = length b0 \<and>
         (\<forall>i<a. offsets s' ! i = 0) \<and>
         ((\<forall>k\<in>set (offset p). k < 2 ^ 31) \<longrightarrow> (\<forall>i<length b0. 0 \<le> offsets s' ! i))"
proof -
  from assms(1) obtain a' where a': "CanonicalAxisIndex b0 (axis p) = Inr a'" "a' < length b0"
    and len: "length (offsets s') = length b0"
    and d: "\<And>j. j < length b0 \<Longrightarrow> Reshape_dim p b0 b1 a' j = Inr (top_shape s' ! j, offsets s' ! j)"
    by (rule Reshape_Inr) blast
  from a' assms(2) have a: "a' = a" by simp
  have "0 \<le> offsets s' ! i" if "i < length b0" "\<forall>k\<in>set (offset p). k < 2 ^ 31" for i
    using d[OF that(1)] that(2)
    by (auto simp: Reshape_dim_Inr dest: crop_offset_at_nonneg split: if_splits)
  moreover have "offsets s' ! i = 0" if "i < a" for i
  proof -
    from that a a'(2) have "i < length b0" by simp
    from d[OF this] that a show ?thesis by (auto simp: Reshape_dim_Inr split: if_splits)
  qed
  ultimately show ?thesis using len by blast
qed

text \<open>
  The instance at the source \<open>[1, 3, 5, 5]\<close>, the reference \<open>[1, 3, 3, 3]\<close>, axis 2 and the
  offsets \<open>[1, 1]\<close>, both below \<open>2 ^ 31\<close>.
\<close>

theorem reshape_offsets_invariant_witness:
  "Reshape \<lparr>axis = 2, offset = [1, 1]\<rparr> [1, 3, 5, 5] [1, 3, 3, 3] \<lparr>offsets = [], top_shape = []\<rparr>
     = Inr \<lparr>offsets = [0, 0, 1, 1], top_shape = [1, 3, 3, 3]\<rparr> \<and>
   CanonicalAxisIndex [1, 3, 5, 5] 2 = Inr 2 \<and>
   (1::nat) < 2 ^ 31 \<and>
   length (offsets \<lparr>offsets = [0, 0, 1, 1], top_shape = [1, 3, 3, 3]\<rparr>) = length [1, 3, 5, 5::nat] \<and>
   0 \<le> offsets \<lparr>offsets = [0, 0, 1, 1], top_shape = [1, 3, 3, 3]\<rparr> ! 3 \<and>
   offsets \<lparr>offsets = [0, 0, 1, 1], top_shape = [1, 3, 3, 3]\<rparr> ! 1 = 0"
proof -
  have h: "Reshape \<lparr>axis = 2, offset = [1, 1]\<rparr> [1, 3, 5, 5] [1, 3, 3, 3]
             \<lparr>offsets = [], top_shape = []\<rparr>
           = Inr \<lparr>offsets = [0, 0, 1, 1], top_shape = [1, 3, 3, 3]\<rparr>"
    by (simp add: reshape_eval numeral_3_eq_3 eval_nat_numeral)
  have a: "CanonicalAxisIndex [1, 3, 5, 5] (axis \<lparr>axis = 2, offset = [1, 1]\<rparr>) = Inr 2"
    by (simp add: CanonicalAxisIndex_def)
  have k: "\<forall>k\<in>set (offset \<lparr>axis = 2, offset = [1, 1]\<rparr>). k < 2 ^ 31" by simp
  from reshape_offsets_invariant[OF h a] k
  have "\<forall>i<length [1, 3, 5, 5::nat].
          0 \<le> offsets \<lparr>offsets = [0, 0, 1, 1], top_shape = [1, 3, 3, 3]\<rparr> ! i"
    "\<forall>i<2. offsets \<lparr>offsets = [0, 0, 1, 1], top_shape = [1, 3, 3, 3]\<rparr> ! i = 0"
    by blast+
  then show ?thesis using h a by simp
qed

text \<open>
  Claim C7 says that \<open>Reshape\<close> succeeds only when source and reference have equal rank.
  Neither \<open>LayerSetUp\<close> nor \<open>Reshape\<close> compares the ranks: with a source of shape \<open>[5]\<close> and a
  reference of shape \<open>[3, 7]\<close> both succeed, and the output has shape \<open>[3]\<close>.
\<close>

theorem reshape_equal_rank_counterexample:
  "LayerSetUp \<lparr>axis = 0, offset = []\<rparr> [[5], [3, 7]] = Inr () \<and>
   Reshape \<lparr>axis = 0, offset = []\<rparr> [5] [3, 7] \<lparr>offsets = [], top_shape = []\<rparr>
     = Inr \<lparr>offsets = [0], top_shape = [3]\<rparr> \<and>
   length [5::nat] \<noteq> length [3::nat, 7]"
  by (simp add: reshape_eval)

text \<open>
  Claim C7, as the code has it. \<open>Reshape\<close> reads the reference's extent at every source
  dimension, and that read is checked, so after a successful \<open>Reshape\<close> the reference has at
  least as many dimensions as the source.
\<close>

theorem reshape_rank_le:
  assumes "Reshape p b0 b1 s = Inr s'"
  shows "length b0 \<le> length b1"
proof (cases "length b0")
  case 0
  then show ?thesis by simp
next
  case (Suc n)
  from assms obtain a where 
    d: "\<And>j. j < length b0 \<Longrightarrow> Reshape_dim p b0 b1 a j = Inr (top_shape s' ! j, offsets s' ! j)"
    by (rule Reshape_Inr) blast
  from d[of n] Suc have "n < length b1" by (simp add: Reshape_dim_Inr)
  with Suc show ?thesis by simp
qed

text \<open>
  The instance at the source \<open>[5]\<close> and the reference \<open>[3, 7]\<close>.
\<close>

theorem reshape_rank_le_witness:
  "Reshape \<lparr>axis = 0, offset = []\<rparr> [5] [3, 7] \<lparr>offsets = [], top_shape = []\<rparr>
     = Inr \<lparr>offsets = [0], top_shape = [3]\<rparr> \<and> length [5::nat] \<le> length [3::nat, 7]"
proof -
  have h: "Reshape \<lparr>axis = 0, offset = []\<rparr> [5] [3, 7] \<lparr>offsets = [], top_shape = []\<rparr>
     = Inr \<lparr>offsets = [0], top_shape = [3]\<rparr>"
    by (simp add: reshape_eval)
  from reshape_rank_le[OF h] h show ?thesis by simp
qed




text \<open>
  Claim C8. Let the axis resolve to \<open>a\<close>, and let \<open>c\<close> be the offset the resolver gives
  dimension \<open>i\<close> (zero before the axis). If the source's extent minus \<open>c\<close> is less than the
  reference's extent at \<open>i\<close>, then \<open>Reshape\<close> fails with the error "invalid crop parameters in
  dimension \<open>j\<close>", where \<open>j \<le> i\<close> is a dimension at which the fit fails (the first one).
\<close>

theorem fit_check_fails:
  assumes "CanonicalAxisIndex b0 (axis p) = Inr a"
    and "i < length b0" and "i < length b1"
    and "(if a \<le> i then crop_offset_at p a i else Inr 0) = Inr c"
    and "int (b0 ! i) - c < int (b1 ! i)"
  shows "\<exists>j\<le>i. \<exists>s' c'. Reshape p b0 b1 s = Inl (InvalidCropParameters j, s') \<and>
           (if a \<le> j then crop_offset_at p a j else Inr 0) = Inr c' \<and>
           int (b0 ! j) - c' < int (b1 ! j)"
  using assms by (rule fit_violation_fails)

text \<open>
  The scenario of the claim: source and reference \<open>[2, 10, 10]\<close>, axis 1, offset 5. The
  call fails at dimension 1, since \<open>10 - 5 < 10\<close>.
\<close>

theorem fit_check_fails_witness:
  "CanonicalAxisIndex [2, 10, 10] 1 = Inr 1 \<and>
   crop_offset_at \<lparr>axis = 1, offset = [5]\<rparr> 1 1 = Inr 5 \<and>
   int ([2, 10, 10] ! 1) - 5 < int ([2, 10, 10] ! 1) \<and>
   Reshape \<lparr>axis = 1, offset = [5]\<rparr> [2, 10, 10] [2, 10, 10] \<lparr>offsets = [], top_shape = []\<rparr>
     = Inl (InvalidCropParameters 1, \<lparr>offsets = [0, 0, 0], top_shape = []\<rparr>)"
proof -
  have a: "CanonicalAxisIndex [2, 10, 10] (axis \<lparr>axis = 1, offset = [5]\<rparr>) = Inr 1"
    by (simp add: CanonicalAxisIndex_def)
  have c: "(if 1 \<le> (1::nat) then crop_offset_at \<lparr>axis = 1, offset = [5]\<rparr> 1 1 else Inr 0) = Inr 5"
    by (simp add: crop_offset_at_def to_int_tp_eval)
  have v: "int ([2, 10, 10] ! 1) - 5 < int ([2, 10, 10] ! 1)" by simp
  from fit_check_fails[OF a _ _ c v, of "\<lparr>offsets = [], top_shape = []\<rparr>"]
  have "\<exists>j\<le>1. \<exists>s'. Reshape \<lparr>axis = 1, offset = [5]\<rparr> [2, 10, 10] [2, 10, 10] \<lparr>offsets = [], top_shape = []\<rparr>
          = Inl (InvalidCropParameters j, s')"
    by auto
  moreover have "Reshape \<lparr>axis = 1, offset = [5]\<rparr> [2, 10, 10] [2, 10, 10] \<lparr>offsets = [], top_shape = []\<rparr>
     = Inl (InvalidCropParameters 1, \<lparr>offsets = [0, 0, 0], top_shape = []\<rparr>)"
    by (simp add: reshape_eval numeral_3_eq_3)
  ultimately show ?thesis using a c v by simp
qed

text \<open>
  Claim C10. The fit check also runs at the dimensions before the resolved axis \<open>a\<close>, where
  the offset is zero and the output keeps the source's extent: if the source's extent at such
  a dimension \<open>i\<close> is less than the reference's, \<open>Reshape\<close> fails with the error that names a
  dimension \<open>j \<le> i\<close> at which the source is the smaller one.
\<close>

theorem fit_check_before_axis:
  assumes "CanonicalAxisIndex b0 (axis p) = Inr a"
    and "i < a" and "i < length b1" and "b0 ! i < b1 ! i"
  shows "\<exists>j\<le>i. \<exists>s'. Reshape p b0 b1 s = Inl (InvalidCropParameters j, s') \<and> b0 ! j < b1 ! j"
proof -
  from assms(1,2) have i: "i < length b0" using CanonicalAxisIndex_less by fastforce
  have c: "(if a \<le> i then crop_offset_at p a i else Inr 0) = Inr 0" using assms(2) by simp
  have v: "int (b0 ! i) - 0 < int (b1 ! i)" using assms(4) by simp
  from fit_violation_fails[OF assms(1) i assms(3) c v, of s]
  obtain j s' c' where j: "j \<le> i" "Reshape p b0 b1 s = Inl (InvalidCropParameters j, s')"
    "(if a \<le> j then crop_offset_at p a j else Inr 0) = Inr c'" "int (b0 ! j) - c' < int (b1 ! j)"
    by blast
  from j(1) assms(2) j(3) have "c' = 0" by simp
  with j show ?thesis by auto
qed

text \<open>
  The instance at the source \<open>[2, 10, 10]\<close>, the reference \<open>[2, 11, 10]\<close> and axis 2:
  dimension 1 is before the axis and fails.
\<close>

theorem fit_check_before_axis_witness:
  "CanonicalAxisIndex [2, 10, 10] 2 = Inr 2 \<and> [2, 10, 10] ! 1 < [2, 11, 10::nat] ! 1 \<and>
   Reshape \<lparr>axis = 2, offset = []\<rparr> [2, 10, 10] [2, 11, 10] \<lparr>offsets = [], top_shape = []\<rparr>
     = Inl (InvalidCropParameters 1, \<lparr>offsets = [0, 0, 0], top_shape = []\<rparr>)"
proof -
  have a: "CanonicalAxisIndex [2, 10, 10] (axis \<lparr>axis = 2, offset = []\<rparr>) = Inr 2"
    by (simp add: CanonicalAxisIndex_def)
  have v: "[2, 10, 10] ! 1 < [2, 11, 10::nat] ! 1" by simp
  from fit_check_before_axis[OF a _ _ v, of "\<lparr>offsets = [], top_shape = []\<rparr>"]
  have "\<exists>j\<le>1. \<exists>s'. Reshape \<lparr>axis = 2, offset = []\<rparr> [2, 10, 10] [2, 11, 10] \<lparr>offsets = [], top_shape = []\<rparr>
          = Inl (InvalidCropParameters j, s')"
    by auto
  moreover have "Reshape \<lparr>axis = 2, offset = []\<rparr> [2, 10, 10] [2, 11, 10] \<lparr>offsets = [], top_shape = []\<rparr>
     = Inl (InvalidCropParameters 1, \<lparr>offsets = [0, 0, 0], top_shape = []\<rparr>)"
    by (simp add: reshape_eval numeral_3_eq_3)
  ultimately show ?thesis using a v by simp
qed

text \<open>
  Claim C9. Let the axis resolve to \<open>a\<close>. A single offset \<open>k\<close> and the list of
  \<open>rank - a\<close> copies of \<open>k\<close> give the same result of \<open>Reshape\<close> (the same offsets and output
  shape, or the same failure in the same state) and the same result of \<open>LayerSetUp\<close>. The
  forward and the backward pass read the configuration only through that state.
\<close>

theorem offset_broadcast:
  assumes "CanonicalAxisIndex b0 (axis p) = Inr a"
  shows "Reshape (p\<lparr>offset := [k]\<rparr>) b0 b1 s
           = Reshape (p\<lparr>offset := replicate (length b0 - a) k\<rparr>) b0 b1 s \<and>
         LayerSetUp (p\<lparr>offset := [k]\<rparr>) [b0, b1]
           = LayerSetUp (p\<lparr>offset := replicate (length b0 - a) k\<rparr>) [b0, b1]"
proof -
  from assms have a: "a < length b0" by (rule CanonicalAxisIndex_less)
  have "Reshape_loop (p\<lparr>offset := [k]\<rparr>) b0 b1 a 0 b0 s0
      = Reshape_loop (p\<lparr>offset := replicate (length b0 - a) k\<rparr>) b0 b1 a 0 b0 s0" for s0
    by (rule Reshape_loop_cong_dim) (rule Reshape_dim_broadcast[OF a])
  then have "Reshape (p\<lparr>offset := [k]\<rparr>) b0 b1 s
           = Reshape (p\<lparr>offset := replicate (length b0 - a) k\<rparr>) b0 b1 s"
    using assms by (simp add: Reshape_def)
  moreover have "LayerSetUp (p\<lparr>offset := [k]\<rparr>) [b0, b1]
           = LayerSetUp (p\<lparr>offset := replicate (length b0 - a) k\<rparr>) [b0, b1]"
    using assms a by (simp add: LayerSetUp_def)
  ultimately show ?thesis ..
qed

text \<open>
  The instance at a source of rank 4 with axis 1: the offset \<open>[1]\<close> and the offsets
  \<open>[1, 1, 1]\<close>.
\<close>

theorem offset_broadcast_witness:
  "CanonicalAxisIndex [1, 4, 5, 5] 1 = Inr 1 \<and>
   Reshape \<lparr>axis = 1, offset = [1]\<rparr> [1, 4, 5, 5] [1, 3, 4, 4] \<lparr>offsets = [], top_shape = []\<rparr>
     = Inr \<lparr>offsets = [0, 1, 1, 1], top_shape = [1, 3, 4, 4]\<rparr> \<and>
   Reshape \<lparr>axis = 1, offset = [1, 1, 1]\<rparr> [1, 4, 5, 5] [1, 3, 4, 4] \<lparr>offsets = [], top_shape = []\<rparr>
     = Inr \<lparr>offsets = [0, 1, 1, 1], top_shape = [1, 3, 4, 4]\<rparr>"
proof -
  have a: "CanonicalAxisIndex [1, 4, 5, 5] (axis \<lparr>axis = 1, offset = []\<rparr>) = Inr 1"
    by (simp add: CanonicalAxisIndex_def)
  have r: "Reshape \<lparr>axis = 1, offset = [1]\<rparr> [1, 4, 5, 5] [1, 3, 4, 4] \<lparr>offsets = [], top_shape = []\<rparr>
     = Inr \<lparr>offsets = [0, 1, 1, 1], top_shape = [1, 3, 4, 4]\<rparr>"
    by (simp add: reshape_eval numeral_3_eq_3 eval_nat_numeral)
  have "replicate (length [1, 4, 5, 5::nat] - 1) (1::nat) = [1, 1, 1]"
    by (simp add: numeral_3_eq_3)
  with offset_broadcast[OF a, of 1 "[1, 3, 4, 4]" "\<lparr>offsets = [], top_shape = []\<rparr>"] r a
  show ?thesis by simp
qed

section \<open>The region copier: loops, positions and the window\<close>

text \<open>
  The invariant rule of the counting loop: a body that returns and keeps the invariant at
  every counter makes the loop return in a state that satisfies it.
\<close>

lemma for_loop_invariant:
  assumes "I i s" and "i \<le> n"
    and "\<And>j t. i \<le> j \<Longrightarrow> j < n \<Longrightarrow> I j t \<Longrightarrow> \<exists>t'. body j t = Inr t' \<and> I (Suc j) t'"
  shows "\<exists>s'. for_loop i n body s = Inr s' \<and> I n s'"
  using assms
proof (induction i n body s rule: for_loop.induct)
  case (1 i n body s)
  show ?case
  proof (cases "i < n")
    case False
    with "1.prems"(1,2) show ?thesis by (simp add: for_loop.simps)
  next
    case True
    from "1.prems"(3)[of i s] True "1.prems"(1)
    obtain t where t: "body i s = Inr t" "I (Suc i) t" by auto
    have "\<exists>s'. for_loop (Suc i) n body t = Inr s' \<and> I n s'"
      using True t(2) "1.prems"(3) by (intro "1.IH"[OF True t(1)]) auto
    with True t(1) show ?thesis by (subst for_loop.simps) simp
  qed
qed

text \<open>
  Arithmetic of row-major positions.
\<close>

lemma lin_Nil [simp]: "lin shp [] acc = acc * prod_list shp"
  by (induction shp arbitrary: acc) (simp_all add: mult.assoc)

lemma lin_acc: "lin shp xs acc = acc * prod_list shp + lin shp xs 0"
proof (induction shp arbitrary: xs acc)
  case Nil
  then show ?case by simp
next
  case (Cons d ds)
  show ?case
  proof (cases xs)
    case Nil
    then show ?thesis by simp
  next
    case (Cons x xs')
    have "lin ds xs' (acc * d + x) = (acc * d + x) * prod_list ds + lin ds xs' 0"
      by (rule Cons.IH)
    moreover have "lin ds xs' x = x * prod_list ds + lin ds xs' 0"
      by (rule Cons.IH)
    ultimately show ?thesis using Cons by (simp add: algebra_simps)
  qed
qed

lemma lin_append:
  "length xs = length ps \<Longrightarrow> lin (ps @ qs) (xs @ ys) acc = lin qs ys (lin ps xs acc)"
proof (induction ps arbitrary: xs acc)
  case Nil
  then show ?case by simp
next
  case (Cons p ps)
  then obtain x xs' where "xs = x # xs'" "length xs' = length ps" by (cases xs) auto
  with Cons.IH show ?case by simp
qed

lemma lin_snoc:
  "length xs = length ps \<Longrightarrow> lin (ps @ [d]) (xs @ [x]) 0 = lin ps xs 0 * d + x"
  by (simp add: lin_append)

lemma lin_prefix:
  "length xs = length ps \<Longrightarrow> lin (ps @ qs) xs 0 = lin ps xs 0 * prod_list qs"
  using lin_append[of xs ps qs "[]" 0] by simp

lemma lin_bound: "list_all2 (<) xs shp \<Longrightarrow> lin shp xs 0 < prod_list shp"
proof (induction xs shp rule: list_all2_induct)
  case Nil
  then show ?case by simp
next
  case (Cons x xs d ds)
  have "lin (d # ds) (x # xs) 0 = x * prod_list ds + lin ds xs 0"
    using lin_acc[of ds xs x] by simp
  also have "\<dots> < x * prod_list ds + prod_list ds" using Cons.IH by simp
  also have "\<dots> = Suc x * prod_list ds" by simp
  also have "\<dots> \<le> d * prod_list ds" using Cons.hyps(1) by (intro mult_le_mono1) simp
  finally show ?case by simp
qed

text \<open>
  \<^verbatim>\<open>Blob::offset\<close> succeeds on an index vector within the shape, with the row-major position.
\<close>

lemma offset_loop_lin:
  "list_all2 (<) xs (take (length xs) shp) \<Longrightarrow> length xs \<le> length shp \<Longrightarrow>
   offset_loop shp (map int xs) acc = Inr (lin shp xs acc)"
proof (induction shp arbitrary: xs acc)
  case Nil
  then show ?case by simp
next
  case (Cons d ds)
  show ?case
  proof (cases xs)
    case Nil
    have "offset_loop sh [] a = Inr (a * prod_list sh)" for sh a
      by (induction sh arbitrary: a) (simp_all add: mult.assoc)
    with Nil show ?thesis by simp
  next
    case (Cons x xs')
    with Cons.prems have "x < d" "list_all2 (<) xs' (take (length xs') ds)" "length xs' \<le> length ds"
      by simp_all
    with Cons.IH[of xs'] Cons show ?thesis by simp
  qed
qed

lemma Blob_offset_lin:
  "list_all2 (<) xs (take (length xs) shp) \<Longrightarrow> length xs \<le> length shp \<Longrightarrow>
   Blob_offset shp (map int xs) = Inr (lin shp xs 0)"
  by (simp add: Blob_offset_def offset_loop_lin)

lemma length_concat_uniform:
  "(\<And>i. i < n \<Longrightarrow> length (f i) = k) \<Longrightarrow> length (concat (map f [0..<n])) = n * k"
  by (induction n) simp_all

lemma nth_concat_uniform:
  "(\<And>i. i < n \<Longrightarrow> length (f i) = k) \<Longrightarrow> i < n \<Longrightarrow> r < k \<Longrightarrow>
   concat (map f [0..<n]) ! (i * k + r) = f i ! r"
proof (induction n)
  case 0
  then show ?case by simp
next
  case (Suc n)
  have len: "length (concat (map f [0..<n])) = n * k"
    using Suc.prems(1) by (intro length_concat_uniform) simp
  show ?case
  proof (cases "i < n")
    case True
    then have "Suc i * k \<le> n * k" by (intro mult_le_mono1) simp
    with Suc.prems(3) have "i * k + r < n * k" by simp
    with len Suc.IH[OF _ True Suc.prems(3)] Suc.prems(1) show ?thesis
      by (simp add: nth_append)
  next
    case False
    with Suc.prems(2) have "i = n" by simp
    with len show ?thesis by (simp add: nth_append)
  qed
qed

lemma length_window:
  "length bs = length ts \<Longrightarrow> length cs = length ts \<Longrightarrow> length (window ts bs cs L src) = prod_list ts"
proof (induction ts bs cs L src rule: window.induct)
  case (1 t ts b bs c cs L src)
  then show ?case by (simp add: length_concat_uniform)
qed simp_all

lemma length_scatter:
  "length bs = length ts \<Longrightarrow> length cs = length ts \<Longrightarrow> (\<forall>j<length ts. cs ! j + ts ! j \<le> bs ! j) \<Longrightarrow>
   length (scatter ts bs cs L g) = prod_list bs"
proof (induction ts bs cs L g rule: scatter.induct)
  case (1 t ts b bs c cs L g)
  have fit: "c + t \<le> b" using "1.prems"(3) by auto
  have rest: "\<forall>j<length ts. cs ! j + ts ! j \<le> bs ! j" using "1.prems"(3) by auto
  have "length (scatter ts bs cs (L * t + i) g) = prod_list bs" if "i < t" for i
    using "1.IH"[of i] that "1.prems"(1,2) rest by simp
  then have "length (concat (map (\<lambda>i. scatter ts bs cs (L * t + i) g) [0..<t])) = t * prod_list bs"
    by (intro length_concat_uniform) simp
  moreover have "c * prod_list bs + t * prod_list bs + (b - (c + t)) * prod_list bs = b * prod_list bs"
    using fit by (metis add_mult_distrib le_add_diff_inverse)
  ultimately show ?case by simp
qed simp_all

lemma pos_bound:
  fixes x r P n :: nat
  assumes "r < P" "x < n"
  shows "x * P + r < n * P"
proof -
  have "x * P + r < Suc x * P" using assms(1) by simp
  also have "\<dots> \<le> n * P" using assms(2) by (intro mult_le_mono1) simp
  finally show ?thesis .
qed

text \<open>
  The element of \<open>window\<close> at a multi-index is the source's element at the shifted index.
\<close>

lemma window_nth:
  "list_all2 (<) idx ts \<Longrightarrow> length bs = length ts \<Longrightarrow> length cs = length ts \<Longrightarrow>
   window ts bs cs L src ! lin ts idx 0 = src ! lin bs (map2 (+) idx cs) L"
proof (induction ts arbitrary: idx bs cs L)
  case Nil
  then show ?case by simp
next
  case (Cons t ts)
  from Cons.prems obtain x xs b bs' c cs' where
    eq: "idx = x # xs" "bs = b # bs'" "cs = c # cs'"
    and x: "x < t" and xs: "list_all2 (<) xs ts"
    and len: "length bs' = length ts" "length cs' = length ts"
    by (cases idx; cases bs; cases cs) auto
  let ?W = "\<lambda>i. window ts bs' cs' (L * b + (i + c)) src"
  have lenW: "length (?W i) = prod_list ts" for i
    using len by (simp add: length_window)
  have r: "lin ts xs 0 < prod_list ts" using xs by (rule lin_bound)
  have "lin (t # ts) (x # xs) 0 = x * prod_list ts + lin ts xs 0"
    using lin_acc[of ts xs x] by simp
  then have "window (t # ts) (b # bs') (c # cs') L src ! lin (t # ts) (x # xs) 0
      = ?W x ! lin ts xs 0"
    using nth_concat_uniform[of t ?W "prod_list ts" x "lin ts xs 0"] lenW x r by simp
  also have "\<dots> = src ! lin bs' (map2 (+) xs cs') (L * b + (x + c))"
    using Cons.IH[OF xs len] .
  finally show ?case using eq by simp
qed

lemma in_win_Cons [simp]:
  "in_win (c # cs) (t # ts) (x # xs) \<longleftrightarrow> c \<le> x \<and> x < c + t \<and> in_win cs ts xs"
  by (simp add: in_win_def)

lemma in_win_Nil [simp]: "in_win [] [] []"
  by (simp add: in_win_def)

text \<open>
  The element of \<open>scatter\<close> at a multi-index of the source: the gradient inside the window,
  zero outside.
\<close>

lemma scatter_nth:
  "list_all2 (<) idx bs \<Longrightarrow> length ts = length bs \<Longrightarrow> length cs = length bs \<Longrightarrow>
   (\<forall>j<length bs. cs ! j + ts ! j \<le> bs ! j) \<Longrightarrow>
   scatter ts bs cs L g ! lin bs idx 0
     = (if in_win cs ts idx then g ! lin ts (map2 (-) idx cs) L else 0)"
proof (induction bs arbitrary: idx ts cs L)
  case Nil
  then show ?case by simp
next
  case (Cons b bs)
  from Cons.prems obtain x xs t ts' c cs' where
    eq: "idx = x # xs" "ts = t # ts'" "cs = c # cs'"
    and x: "x < b" and xs: "list_all2 (<) xs bs"
    and len: "length ts' = length bs" "length cs' = length bs"
    by (cases idx; cases ts; cases cs) auto
  from Cons.prems(4) eq have fit: "c + t \<le> b" by auto
  from Cons.prems(4) eq have rest: "\<forall>j<length bs. cs' ! j + ts' ! j \<le> bs ! j" by auto
  let ?P = "prod_list bs"
  let ?S = "\<lambda>i. scatter ts' bs cs' (L * t + i) g"
  let ?C = "concat (map ?S [0..<t])"
  let ?r = "lin bs xs 0"
  have lenS: "length (?S i) = ?P" for i
    using len rest by (simp add: length_scatter)
  have lenC: "length ?C = t * ?P" using lenS by (intro length_concat_uniform) simp
  have r: "?r < ?P" using xs by (rule lin_bound)
  have pos: "lin (b # bs) (x # xs) 0 = x * ?P + ?r"
    using lin_acc[of bs xs x] by simp
  have sc: "scatter ts (b # bs) cs L g
      = replicate (c * ?P) 0 @ ?C @ replicate ((b - (c + t)) * ?P) 0"
    using eq by simp
  consider (before) "x < c" | (inside) "c \<le> x" "x < c + t" | (after) "c + t \<le> x"
    by linarith
  then show ?case
  proof cases
    case before
    then have "x * ?P + ?r < c * ?P" using r by (intro pos_bound)
    with before show ?thesis using eq pos sc by (simp add: nth_append)
  next
    case inside
    then obtain k where k: "x = c + k" "k < t" by (metis le_Suc_ex nat_add_left_cancel_less)
    have "x * ?P + ?r = c * ?P + (k * ?P + ?r)" using k by (simp add: algebra_simps)
    moreover have "k * ?P + ?r < t * ?P" using r k(2) by (intro pos_bound)
    ultimately have "scatter ts (b # bs) cs L g ! (x * ?P + ?r) = ?C ! (k * ?P + ?r)"
      using sc lenC by (simp add: nth_append)
    also have "\<dots> = ?S k ! ?r"
      using lenS k(2) r by (intro nth_concat_uniform) simp_all
    also have "\<dots> = (if in_win cs' ts' xs then g ! lin ts' (map2 (-) xs cs') (L * t + k) else 0)"
      using Cons.IH[OF xs len rest] .
    finally show ?thesis using eq pos k inside by simp
  next
    case after
    then obtain k where k: "x = c + t + k" by (metis le_Suc_ex)
    with x have kb: "k < b - (c + t)" by simp
    have "x * ?P + ?r = c * ?P + (t * ?P + (k * ?P + ?r))" using k by (simp add: algebra_simps)
    moreover have "k * ?P + ?r < (b - (c + t)) * ?P" using r kb by (intro pos_bound)
    ultimately have "scatter ts (b # bs) cs L g ! (x * ?P + ?r) = 0"
      using sc lenC by (simp add: nth_append)
    with after show ?thesis using eq pos by simp
  qed
qed

text \<open>
  One bulk copy into the block \<open>Z\<close> of a buffer \<open>X @ Z @ Y\<close>, and the loop that repeats the
  same copy: after the first copy the others change nothing.
\<close>

lemma caffe_copy_block:
  assumes "data m = X @ Z @ Y" and "c + n \<le> length Z" and "xo + n \<le> length src"
  shows "caffe_copy n src xo m (length X + c)
       = Inr \<lparr>data = X @ (take c Z @ take n (drop xo src) @ drop (c + n) Z) @ Y,
              copies = Suc (copies m)\<rparr>"
  using assms by (simp add: caffe_copy_def add.assoc)

lemma for_loop_same_copy:
  assumes d: "data m = X @ Z @ Y" and fit: "c + t \<le> length Z" and src: "xo + t \<le> length src"
    and body: "\<And>i m'. 0 < t \<Longrightarrow> body i m' = caffe_copy t src xo m' (length X + c)"
  shows "for_loop 0 t body m
       = Inr \<lparr>data = X @ (take c Z @ take t (drop xo src) @ drop (c + t) Z) @ Y,
              copies = copies m + t\<rparr>"
proof -
  let ?Z' = "take c Z @ take t (drop xo src) @ drop (c + t) Z"
  let ?D = "X @ ?Z' @ Y"
  define I where "I k m' \<longleftrightarrow> copies m' = copies m + k \<and> data m' = (if k = 0 then data m else ?D)"
    for k and m' :: "'a mem"
  have lenrow: "length (take t (drop xo src)) = t" using src by simp
  have lenZ': "length ?Z' = length Z" using fit lenrow by simp
  have again: "take c ?Z' @ take t (drop xo src) @ drop (c + t) ?Z' = ?Z'"
    using fit lenrow by (simp add: min_absorb2)
  have step: "\<exists>t'. body j s = Inr t' \<and> I (Suc j) t'" if "j < t" "I j s" for j s
  proof -
    from that(1) have pos: "0 < t" by simp
    show ?thesis
    proof (cases "j = 0")
      case True
      with that(2) have "data s = X @ Z @ Y" "copies s = copies m" by (simp_all add: I_def d)
      from caffe_copy_block[OF this(1) fit src] this(2) body[OF pos, of j s]
      show ?thesis by (simp add: I_def True)
    next
      case False
      with that(2) have s: "data s = X @ ?Z' @ Y" "copies s = copies m + j" by (simp_all add: I_def)
      have fit': "c + t \<le> length ?Z'" using fit lenZ' by simp
      from caffe_copy_block[OF s(1) fit' src] again s(2) body[OF pos, of j s]
      show ?thesis by (simp add: I_def)
    qed
  qed
  have "I 0 m" by (simp add: I_def)
  from for_loop_invariant[of I 0 m t body, OF this] step
  obtain s' where s': "for_loop 0 t body m = Inr s'" "I t s'" by auto
  have "data s' = ?D"
  proof (cases "t = 0")
    case True
    with s'(2) d show ?thesis by (simp add: I_def)
  next
    case False
    with s'(2) show ?thesis by (simp add: I_def)
  qed
  with s' show ?thesis by (simp add: I_def)
qed

lemma map_nth_take:
  "take n ind = map f pre \<Longrightarrow> n \<le> length ind \<Longrightarrow> map (\<lambda>j. ind ! j) [0..<n] = map f pre"
proof -
  assume a: "take n ind = map f pre" "n \<le> length ind"
  have "map (\<lambda>j. ind ! j) [0..<n] = map (\<lambda>j. take n ind ! j) [0..<n]" by simp
  also have "\<dots> = take n ind" using a(2) by (intro map_nth[of "take n ind", THEN trans[rotated]]) simp
  finally show ?thesis using a(1) by simp
qed

lemma list_all2_shifted:
  fixes pre Tp Bp cp :: "nat list"
  assumes "list_all2 (<) pre Tp" "length Bp = length Tp" "length cp = length Tp"
    "\<forall>j<length Tp. cp ! j + Tp ! j \<le> Bp ! j"
  shows "list_all2 (<) (map2 (+) pre cp) Bp"
proof -
  from assms(1) have l: "length pre = length Tp" by (rule list_all2_lengthD)
  show ?thesis
  proof (rule list_all2_all_nthI)
    show "length (map2 (+) pre cp) = length Bp" using l assms(2,3) by simp
  next
    fix j assume "j < length (map2 (+) pre cp)"
    then have j: "j < length Tp" using l assms(3) by simp
    then have "pre ! j < Tp ! j" using assms(1) by (simp add: list_all2_conv_all_nth)
    moreover have "cp ! j + Tp ! j \<le> Bp ! j" using assms(4) j by simp
    ultimately show "map2 (+) pre cp ! j < Bp ! j" using j l assms(3) by simp
  qed
qed

text \<open>
  At the last dimension, with the outer indices within the output shape and the window inside
  the source, both offset computations succeed, and the row is one bulk copy between the two
  row-major positions.
\<close>

lemma crop_copy_row_valid:
  assumes len: "length Bp = length Tp" "length cp = length Tp"
    and pre: "list_all2 (<) pre Tp"
    and fitp: "\<forall>j<length Tp. cp ! j + Tp ! j \<le> Bp ! j"
    and fit: "c + t \<le> b" and pos: "0 < t"
    and ind: "take (length Tp) ind = map int pre" "length Tp \<le> length ind"
  shows "crop_copy_row (Bp @ [b]) (Tp @ [t]) (map int (cp @ [c])) ind (length Tp) src fwd m =
    (if fwd then caffe_copy t src (lin Bp (map2 (+) pre cp) 0 * b + c) m (lin Tp pre 0 * t)
     else caffe_copy t src (lin Tp pre 0 * t) m (lin Bp (map2 (+) pre cp) 0 * b + c))"
proof -
  let ?n = "length Tp"
  let ?po = "map2 (+) pre cp"
  let ?offs = "map int (cp @ [c])"
  from pre have lpre: "length pre = ?n" by (rule list_all2_lengthD)
  have red: "map (\<lambda>j. ind ! j) [0..<?n] = map int pre"
    using ind by (rule map_nth_take)
  have indj: "ind ! j = int (pre ! j)" if "j < ?n" for j
  proof -
    have "ind ! j = take ?n ind ! j" using that by simp
    also have "\<dots> = int (pre ! j)" using ind(1) that lpre by simp
    finally show ?thesis .
  qed
  have off: "map (\<lambda>j. ind ! j + ?offs ! j) [0..<?n] @ [?offs ! ?n] = map int (?po @ [c])"
  proof -
    have "map (\<lambda>j. ind ! j + ?offs ! j) [0..<?n] = map int ?po"
    proof (rule nth_equalityI)
      show "length (map (\<lambda>j. ind ! j + ?offs ! j) [0..<?n]) = length (map int ?po)"
        using lpre len by simp
    next
      fix j assume "j < length (map (\<lambda>j. ind ! j + ?offs ! j) [0..<?n])"
      then have j: "j < ?n" by simp
      then show "map (\<lambda>j. ind ! j + ?offs ! j) [0..<?n] ! j = map int ?po ! j"
        using indj[OF j] lpre len by (simp add: nth_append)
    qed
    moreover have "?offs ! ?n = int c" using len by (simp add: nth_append)
    ultimately show ?thesis by simp
  qed
  have po: "list_all2 (<) ?po Bp" using pre len fitp by (rule list_all2_shifted)
  then have lpo: "length ?po = length Bp" by (rule list_all2_lengthD)
  have cb: "c < b" using fit pos by simp
  have "list_all2 (<) (?po @ [c]) (Bp @ [b])" using po cb by (simp add: list_all2_appendI)
  then have ob: "Blob_offset (Bp @ [b]) (map int (?po @ [c])) = Inr (lin (Bp @ [b]) (?po @ [c]) 0)"
    using lpo by (intro Blob_offset_lin) simp_all
  have ob': "lin (Bp @ [b]) (?po @ [c]) 0 = lin Bp ?po 0 * b + c"
    using lpo by (simp add: lin_snoc)
  have ot: "Blob_offset (Tp @ [t]) (map int pre) = Inr (lin (Tp @ [t]) pre 0)"
    using pre lpre by (intro Blob_offset_lin) simp_all
  have ot': "lin (Tp @ [t]) pre 0 = lin Tp pre 0 * t"
    using lpre by (simp add: lin_prefix)
  have sh: "shape_at (Tp @ [t]) (int ?n) = Inr t" by (simp add: shape_at_nat)
  have guard: "?n \<le> length ind \<and> ?n < length ?offs" using ind(2) len by simp
  show ?thesis
    unfolding crop_copy_row_def Let_def red off
    using guard sh ob ob' ot ot' by simp
qed

lemma take_drop_as_concat:
  "n + k \<le> length xs \<Longrightarrow> concat (map (\<lambda>i. [xs ! (n + i)]) [0..<k]) = take k (drop n xs)"
proof (induction k)
  case 0
  then show ?case by simp
next
  case (Suc k)
  then have "take (Suc k) (drop n xs) = take k (drop n xs) @ [xs ! (n + k)]"
    by (simp add: take_Suc_conv_app_nth)
  with Suc show ?case by simp
qed

text \<open>
  The forward copier at depth \<open>length Tp\<close>, with outer indices \<open>pre\<close>: it replaces the block of
  the destination that belongs to \<open>pre\<close> by the window of the source below \<open>pre\<close>, and makes one
  bulk copy per element of that block.
\<close>

lemma crop_copy_forward:
  fixes src :: "'a list" and m :: "'a mem"
  assumes "Ts \<noteq> []" and "length Bs = length Ts" and "length cs = length Ts"
    and "length Bp = length Tp" and "length cp = length Tp"
    and "list_all2 (<) pre Tp"
    and "\<forall>j<length Tp. cp ! j + Tp ! j \<le> Bp ! j"
    and "\<forall>j<length Ts. cs ! j + Ts ! j \<le> Bs ! j"
    and "take (length Tp) ind = map int pre" and "length ind = length Tp + length Ts"
    and "length src = prod_list (Bp @ Bs)"
    and "data m = X @ Z @ Y" and "length X = lin Tp pre 0 * prod_list Ts"
    and "length Z = prod_list Ts"
  shows "crop_copy (Bp @ Bs) (Tp @ Ts) (map int (cp @ cs)) ind (length Tp) src True m
       = Inr \<lparr>data = X @ window Ts Bs cs (lin Bp (map2 (+) pre cp) 0) src @ Y,
              copies = copies m + prod_list Ts\<rparr>"
  using assms
proof (induction Ts arbitrary: Tp Bp cp Bs cs pre ind X Z Y m)
  case Nil
  then show ?case by simp
next
  case (Cons t ts)
  from Cons.prems(2,3) obtain b bs' c cs' where eq: "Bs = b # bs'" "cs = c # cs'"
    and len': "length bs' = length ts" "length cs' = length ts"
    by (cases Bs; cases cs) auto
  let ?cur = "length Tp"
  let ?po = "map2 (+) pre cp"
  let ?Lb = "lin Bp ?po 0"
  let ?Lt = "lin Tp pre 0"
  from Cons.prems(6) have lpre: "length pre = ?cur" by (rule list_all2_lengthD)
  have po: "list_all2 (<) ?po Bp"
    using Cons.prems(6,4,5,7) by (rule list_all2_shifted)
  have Lb: "?Lb < prod_list Bp" using po by (rule lin_bound)
  from Cons.prems(8) eq have fit: "c + t \<le> b" by auto
  from Cons.prems(8) eq have fits: "\<forall>j<length ts. cs' ! j + ts ! j \<le> bs' ! j" by auto
  have sh: "shape_at (Tp @ t # ts) (int ?cur) = Inr t" by (simp add: shape_at_nat)
  show ?case
  proof (cases "ts = []")
    case True
    with len' have nil: "bs' = []" "cs' = []" by simp_all
    let ?xo = "?Lb * b + c"
    have srcb: "?xo + t \<le> length src"
    proof -
      have "?xo + t \<le> Suc ?Lb * b" using fit by simp
      also have "\<dots> \<le> prod_list Bp * b" using Lb by (intro mult_le_mono1) simp
      finally show ?thesis using Cons.prems(11) eq nil by simp
    qed
    have lenX: "length X = ?Lt * t" using Cons.prems(13) True by simp
    have lenZ: "length Z = t" using Cons.prems(14) True by simp
    have body: "crop_copy_row (Bp @ [b]) (Tp @ [t]) (map int (cp @ [c])) ind ?cur src True m'
        = caffe_copy t src ?xo m' (length X + 0)" if "0 < t" for m' :: "'a mem"
      using crop_copy_row_valid[OF Cons.prems(4,5,6,7) fit that Cons.prems(9), of src True m']
        Cons.prems(10) lenX by simp
    have "for_loop 0 t
            (\<lambda>i m'. crop_copy_row (Bp @ [b]) (Tp @ [t]) (map int (cp @ [c])) ind ?cur src True m') m
        = Inr \<lparr>data = X @ (take 0 Z @ take t (drop ?xo src) @ drop (0 + t) Z) @ Y,
               copies = copies m + t\<rparr>"
      using Cons.prems(12) lenZ srcb body by (intro for_loop_same_copy) simp_all
    moreover have "window [t] [b] [c] ?Lb src = take t (drop ?xo src)"
      using take_drop_as_concat[OF srcb] by (simp add: add.assoc add.commute[of c])
    ultimately show ?thesis
      using True nil eq sh lenZ by (subst crop_copy.simps) simp
  next
    case False
    let ?P = "prod_list ts"
    let ?W = "\<lambda>i. window ts bs' cs' (?Lb * b + (i + c)) src"
    have lenW: "length (?W i) = ?P" for i using len' by (simp add: length_window)
    have lenC: "length (concat (map ?W [0..<k])) = k * ?P" for k
      using lenW by (intro length_concat_uniform) simp
    have lenZ: "length Z = t * ?P" using Cons.prems(14) by simp
    have lenX: "length X = ?Lt * (t * ?P)" using Cons.prems(13) by simp
    have curlt: "?cur < length ind" using Cons.prems(10) by simp
    define I where "I k m' \<longleftrightarrow> copies m' = copies m + k * ?P \<and>
        data m' = X @ concat (map ?W [0..<k]) @ drop (k * ?P) Z @ Y" for k and m' :: "'a mem"
    let ?body = "\<lambda>i m'. if ?cur < length ind
                        then crop_copy (Bp @ b # bs') (Tp @ t # ts) (map int (cp @ c # cs'))
                               (ind[?cur := int i]) (?cur + 1) src True m'
                        else Inl VectorIndexOutOfRange"
    have step: "\<exists>s'. ?body j s = Inr s' \<and> I (Suc j) s'" if j: "j < t" and Ij: "I j s" for j s
    proof -
      let ?X' = "X @ concat (map ?W [0..<j])"
      let ?Z' = "take ?P (drop (j * ?P) Z)"
      let ?Y' = "drop (Suc j * ?P) Z @ Y"
      have le: "Suc j * ?P \<le> t * ?P" using j by (intro mult_le_mono1) simp
      have a1: "length (bs') = length ts" "length cs' = length ts" by (rule len')+
      have a4: "length (Bp @ [b]) = length (Tp @ [t])" "length (cp @ [c]) = length (Tp @ [t])"
        using Cons.prems(4,5) by simp_all
      have a6: "list_all2 (<) (pre @ [j]) (Tp @ [t])"
        using Cons.prems(6) j by (simp add: list_all2_appendI)
      have a7: "\<forall>i<length (Tp @ [t]). (cp @ [c]) ! i + (Tp @ [t]) ! i \<le> (Bp @ [b]) ! i"
        using Cons.prems(4,5,7) fit by (auto simp: nth_append less_Suc_eq)
      have a9: "take (length (Tp @ [t])) (ind[?cur := int j]) = map int (pre @ [j])"
        using Cons.prems(9) curlt by (simp add: take_Suc_conv_app_nth)
      have a10: "length (ind[?cur := int j]) = length (Tp @ [t]) + length ts"
        using Cons.prems(10) by simp
      have a11: "length src = prod_list ((Bp @ [b]) @ bs')" using Cons.prems(11) eq by simp
      have "drop (Suc j * ?P) Z = drop ?P (drop (j * ?P) Z)" by (simp add: add.commute)
      then have "drop (j * ?P) Z = ?Z' @ drop (Suc j * ?P) Z"
        by (simp only: append_take_drop_id)
      then have a12: "data s = ?X' @ ?Z' @ ?Y'"
        using Ij by (simp add: I_def)
      have a13: "length ?X' = lin (Tp @ [t]) (pre @ [j]) 0 * ?P"
        using lenX lenC lpre by (simp add: lin_snoc algebra_simps)
      have a14: "length ?Z' = ?P" using lenZ le by simp
      from Cons.IH[OF False a1 a4 a6 a7 fits a9 a10 a11 a12 a13 a14]
      have "crop_copy (Bp @ b # bs') (Tp @ t # ts) (map int (cp @ c # cs'))
              (ind[?cur := int j]) (Suc ?cur) src True s
          = Inr \<lparr>data = ?X' @ ?W j @ ?Y', copies = copies s + ?P\<rparr>"
        using lpre Cons.prems(4,5) po[THEN list_all2_lengthD] by (simp add: lin_snoc)
      with curlt Ij show ?thesis by (simp add: I_def)
    qed
    have "I 0 m" using Cons.prems(12) by (simp add: I_def)
    from for_loop_invariant[of I 0 m t ?body, OF this] step
    obtain s' where s': "for_loop 0 t ?body m = Inr s'" "I t s'" by auto
    from s'(2) lenZ have "s' = \<lparr>data = X @ concat (map ?W [0..<t]) @ Y, copies = copies m + t * ?P\<rparr>"
      by (simp add: I_def)
    with s'(1) False sh show ?thesis
      unfolding eq by (subst crop_copy.simps) (simp add: Suc_lessI)
  qed
qed

text \<open>
  The backward copier at depth \<open>length Tp\<close>: a zero block of the source gradient that belongs
  to the shifted outer indices becomes the scattered gradient.
\<close>

lemma crop_copy_backward:
  fixes g :: "'a::zero list" and m :: "'a mem"
  assumes "Ts \<noteq> []" and "length Bs = length Ts" and "length cs = length Ts"
    and "length Bp = length Tp" and "length cp = length Tp"
    and "list_all2 (<) pre Tp"
    and "\<forall>j<length Tp. cp ! j + Tp ! j \<le> Bp ! j"
    and "\<forall>j<length Ts. cs ! j + Ts ! j \<le> Bs ! j"
    and "take (length Tp) ind = map int pre" and "length ind = length Tp + length Ts"
    and "length g = prod_list (Tp @ Ts)"
    and "data m = X @ replicate (prod_list Bs) 0 @ Y"
    and "length X = lin Bp (map2 (+) pre cp) 0 * prod_list Bs"
  shows "crop_copy (Bp @ Bs) (Tp @ Ts) (map int (cp @ cs)) ind (length Tp) g False m
       = Inr \<lparr>data = X @ scatter Ts Bs cs (lin Tp pre 0) g @ Y,
              copies = copies m + prod_list Ts\<rparr>"
  using assms
proof (induction Ts arbitrary: Tp Bp cp Bs cs pre ind X Y m)
  case Nil
  then show ?case by simp
next
  case (Cons t ts)
  from Cons.prems(2,3) obtain b bs' c cs' where eq: "Bs = b # bs'" "cs = c # cs'"
    and len': "length bs' = length ts" "length cs' = length ts"
    by (cases Bs; cases cs) auto
  let ?cur = "length Tp"
  let ?po = "map2 (+) pre cp"
  let ?Lb = "lin Bp ?po 0"
  let ?Lt = "lin Tp pre 0"
  from Cons.prems(6) have lpre: "length pre = ?cur" by (rule list_all2_lengthD)
  have po: "list_all2 (<) ?po Bp"
    using Cons.prems(6,4,5,7) by (rule list_all2_shifted)
  have Lt: "?Lt < prod_list Tp" using Cons.prems(6) by (rule lin_bound)
  from Cons.prems(8) eq have fit: "c + t \<le> b" by auto
  from Cons.prems(8) eq have fits: "\<forall>j<length ts. cs' ! j + ts ! j \<le> bs' ! j" by auto
  have sh: "shape_at (Tp @ t # ts) (int ?cur) = Inr t" by (simp add: shape_at_nat)
  show ?case
  proof (cases "ts = []")
    case True
    with len' have nil: "bs' = []" "cs' = []" by simp_all
    let ?xo = "?Lt * t"
    let ?Z = "replicate b (0::'a)"
    have srcb: "?xo + t \<le> length g"
    proof -
      have "?xo + t = Suc ?Lt * t" by simp
      also have "\<dots> \<le> prod_list Tp * t" using Lt by (intro mult_le_mono1) simp
      finally show ?thesis using Cons.prems(11) True by simp
    qed
    have lenX: "length X = ?Lb * b" using Cons.prems(13) eq nil by simp
    have dm: "data m = X @ ?Z @ Y" using Cons.prems(12) eq nil by simp
    have body: "crop_copy_row (Bp @ [b]) (Tp @ [t]) (map int (cp @ [c])) ind ?cur g False m'
        = caffe_copy t g ?xo m' (length X + c)" if "0 < t" for m' :: "'a mem"
      using crop_copy_row_valid[OF Cons.prems(4,5,6,7) fit that Cons.prems(9), of g False m']
        Cons.prems(10) lenX by simp
    have "for_loop 0 t
            (\<lambda>i m'. crop_copy_row (Bp @ [b]) (Tp @ [t]) (map int (cp @ [c])) ind ?cur g False m') m
        = Inr \<lparr>data = X @ (take c ?Z @ take t (drop ?xo g) @ drop (c + t) ?Z) @ Y,
               copies = copies m + t\<rparr>"
      using dm fit srcb body by (intro for_loop_same_copy) simp_all
    moreover have "scatter [t] [b] [c] ?Lt g
        = take c ?Z @ take t (drop ?xo g) @ drop (c + t) ?Z"
      using take_drop_as_concat[OF srcb] fit by (simp add: min_absorb2)
    ultimately show ?thesis
      using True nil sh unfolding eq by (subst crop_copy.simps) simp
  next
    case False
    let ?P = "prod_list bs'"
    let ?Pt = "prod_list ts"
    let ?S = "\<lambda>i. scatter ts bs' cs' (?Lt * t + i) g"
    have lenS: "length (?S i) = ?P" for i using len' fits by (simp add: length_scatter)
    have lenC: "length (concat (map ?S [0..<k])) = k * ?P" for k
      using lenS by (intro length_concat_uniform) simp
    have lenX: "length X = ?Lb * (b * ?P)" using Cons.prems(13) eq by simp
    have curlt: "?cur < length ind" using Cons.prems(10) by simp
    define I where "I k m' \<longleftrightarrow> copies m' = copies m + k * ?Pt \<and>
        data m' = X @ replicate (c * ?P) 0 @ concat (map ?S [0..<k])
                    @ replicate ((b - (c + k)) * ?P) 0 @ Y" for k and m' :: "'a mem"
    let ?body = "\<lambda>i m'. if ?cur < length ind
                        then crop_copy (Bp @ b # bs') (Tp @ t # ts) (map int (cp @ c # cs'))
                               (ind[?cur := int i]) (?cur + 1) g False m'
                        else Inl VectorIndexOutOfRange"
    have step: "\<exists>s'. ?body j s = Inr s' \<and> I (Suc j) s'" if j: "j < t" and Ij: "I j s" for j s
    proof -
      let ?X' = "X @ replicate (c * ?P) 0 @ concat (map ?S [0..<j])"
      let ?Y' = "replicate ((b - (c + Suc j)) * ?P) (0::'a) @ Y"
      have a1: "length (bs') = length ts" "length cs' = length ts" by (rule len')+
      have a4: "length (Bp @ [b]) = length (Tp @ [t])" "length (cp @ [c]) = length (Tp @ [t])"
        using Cons.prems(4,5) by simp_all
      have a6: "list_all2 (<) (pre @ [j]) (Tp @ [t])"
        using Cons.prems(6) j by (simp add: list_all2_appendI)
      have a7: "\<forall>i<length (Tp @ [t]). (cp @ [c]) ! i + (Tp @ [t]) ! i \<le> (Bp @ [b]) ! i"
        using Cons.prems(4,5,7) fit by (auto simp: nth_append less_Suc_eq)
      have a9: "take (length (Tp @ [t])) (ind[?cur := int j]) = map int (pre @ [j])"
        using Cons.prems(9) curlt by (simp add: take_Suc_conv_app_nth)
      have a10: "length (ind[?cur := int j]) = length (Tp @ [t]) + length ts"
        using Cons.prems(10) by simp
      have a11: "length g = prod_list ((Tp @ [t]) @ ts)" using Cons.prems(11) by simp
      have "(b - (c + j)) * ?P = ?P + (b - (c + Suc j)) * ?P"
      proof -
        from j fit have "b - (c + j) = Suc (b - (c + Suc j))" by simp
        then show ?thesis by simp
      qed
      then have "replicate ((b - (c + j)) * ?P) (0::'a)
          = replicate ?P 0 @ replicate ((b - (c + Suc j)) * ?P) 0"
        by (simp add: replicate_add)
      then have a12: "data s = ?X' @ replicate ?P 0 @ ?Y'"
        using Ij by (simp add: I_def)
      have zp: "map2 (+) (pre @ [j]) (cp @ [c]) = ?po @ [j + c]"
        using lpre Cons.prems(5) by simp
      have a13: "length ?X' = lin (Bp @ [b]) (map2 (+) (pre @ [j]) (cp @ [c])) 0 * ?P"
        unfolding zp using lenX lenC po[THEN list_all2_lengthD]
        by (simp add: lin_snoc algebra_simps)
      from Cons.IH[OF False a1 a4 a6 a7 fits a9 a10 a11 a12 a13]
      have "crop_copy (Bp @ b # bs') (Tp @ t # ts) (map int (cp @ c # cs'))
              (ind[?cur := int j]) (Suc ?cur) g False s
          = Inr \<lparr>data = ?X' @ ?S j @ ?Y', copies = copies s + ?Pt\<rparr>"
        using lpre by (simp add: lin_snoc)
      with curlt Ij show ?thesis by (simp add: I_def)
    qed
    have "b * ?P = c * ?P + (b - c) * ?P"
      using fit by (metis add_mult_distrib le_add_diff_inverse add_leD1)
    then have "replicate (b * ?P) (0::'a) = replicate (c * ?P) 0 @ replicate ((b - c) * ?P) 0"
      by (simp add: replicate_add)
    then have "I 0 m" using Cons.prems(12) eq by (simp add: I_def)
    from for_loop_invariant[of I 0 m t ?body, OF this] step
    obtain s' where s': "for_loop 0 t ?body m = Inr s'" "I t s'" by auto
    from s'(2) have "s' = \<lparr>data = X @ scatter (t # ts) (b # bs') (c # cs') ?Lt g @ Y,
                            copies = copies m + t * ?Pt\<rparr>"
      by (simp add: I_def)
    with s'(1) False sh show ?thesis
      unfolding eq by (subst crop_copy.simps) (simp add: Suc_lessI)
  qed
qed

text \<open>
  What a successful \<open>Reshape\<close> leaves when no offset is negative: one offset per dimension
  of a source of rank at least one, with the window inside the source in every dimension.
\<close>

lemma Reshape_geometry:
  assumes "Reshape p b0 b1 s = Inr s'" and "\<forall>c\<in>set (offsets s'). 0 \<le> c"
  obtains cs where "offsets s' = map int cs" "length cs = length b0"
    "length (top_shape s') = length b0" "b0 \<noteq> []"
    "\<forall>j<length b0. cs ! j + top_shape s' ! j \<le> b0 ! j"
proof -
  from assms(1) obtain a where a: "a < length b0"
    and lt: "length (top_shape s') = length b0" and lo: "length (offsets s') = length b0"
    and d: "\<And>j. j < length b0 \<Longrightarrow> Reshape_dim p b0 b1 a j = Inr (top_shape s' ! j, offsets s' ! j)"
    by (rule Reshape_Inr) blast
  have fit: "0 \<le> offsets s' ! j \<and> offsets s' ! j + int (top_shape s' ! j) \<le> int (b0 ! j)"
    if "j < length b0" for j
  proof -
    from that lo assms(2) have "0 \<le> offsets s' ! j" by simp
    moreover have "offsets s' ! j + int (top_shape s' ! j) \<le> int (b0 ! j)"
      using d[OF that] by (auto simp: Reshape_dim_Inr split: if_splits)
    ultimately show ?thesis ..
  qed
  define cs where "cs = map nat (offsets s')"
  have "offsets s' = map int cs"
    unfolding cs_def using fit lo by (intro nth_equalityI) simp_all
  moreover have "length cs = length b0" using lo by (simp add: cs_def)
  moreover have "\<forall>j<length b0. cs ! j + top_shape s' ! j \<le> b0 ! j"
  proof (intro allI impI)
    fix j assume j: "j < length b0"
    with fit[OF j] lo show "cs ! j + top_shape s' ! j \<le> b0 ! j" by (simp add: cs_def) linarith
  qed
  moreover from a have "b0 \<noteq> []" by auto
  ultimately show thesis using lt that by blast
qed

text \<open>
  Every position below the element count is the position of a multi-index within the shape.
\<close>

lemma lin_onto:
  "q < prod_list shp \<Longrightarrow> \<exists>idx. list_all2 (<) idx shp \<and> lin shp idx 0 = q"
proof (induction shp arbitrary: q)
  case Nil
  then show ?case by simp
next
  case (Cons d ds)
  let ?P = "prod_list ds"
  from Cons.prems have P: "0 < ?P" by (cases "?P = 0") simp_all
  then have "q mod ?P < ?P" by simp
  from Cons.IH[OF this] obtain xs where xs: "list_all2 (<) xs ds" "lin ds xs 0 = q mod ?P" by blast
  have "q div ?P < d" using Cons.prems P by (simp add: less_mult_imp_div_less mult.commute)
  moreover have "lin (d # ds) (q div ?P # xs) 0 = q"
    using lin_acc[of ds xs "q div ?P"] xs(2) by simp
  ultimately show ?case using xs(1) by (intro exI[of _ "q div ?P # xs"]) simp
qed

text \<open>
  The forward and the backward pass as a whole.
\<close>

lemma forward_result:
  fixes bottom_data top_data :: "'a list"
  assumes "Reshape p b0 b1 s = Inr s'" "offsets s' = map int cs" "length cs = length b0"
    "length (top_shape s') = length b0" "b0 \<noteq> []"
    "\<forall>j<length b0. cs ! j + top_shape s' ! j \<le> b0 ! j"
    and "length bottom_data = count b0"
    and "length top_data = count (top_shape s')"
  shows "Forward_cpu b0 (top_shape s') (offsets s') bottom_data top_data
       = Inr \<lparr>data = window (top_shape s') b0 cs 0 bottom_data, copies = count (top_shape s')\<rparr>"
proof -
  let ?T = "top_shape s'"
  have "crop_copy ([] @ b0) ([] @ ?T) (map int ([] @ cs)) (replicate (length ?T) 0) (length ([]::nat list))
          bottom_data True \<lparr>data = top_data, copies = 0\<rparr>
      = Inr \<lparr>data = [] @ window ?T b0 cs (lin [] (map2 (+) [] []) 0) bottom_data @ [],
             copies = copies \<lparr>data = top_data, copies = 0\<rparr> + prod_list ?T\<rparr>"
    using assms by (intro crop_copy_forward[where Z = top_data]) (auto simp: count_def)
  then show ?thesis using assms(2) by (simp add: Forward_cpu_def count_def)
qed

lemma map2_int_add:
  "map2 (\<lambda>x c. int x + c) idx (map int cs) = map int (map2 (+) idx cs)"
  by (simp add: zip_map2 case_prod_unfold)

lemma in_window_int: "in_window (map int cs) ts idx \<longleftrightarrow> in_win cs ts idx"
proof -
  have "(int (fst ct) \<le> int x \<and> int x < int (fst ct) + int (snd ct))
      = (fst ct \<le> x \<and> x < fst ct + snd ct)" for x :: nat and ct :: "nat \<times> nat"
    by auto
  then show ?thesis
    by (simp add: in_window_def in_win_def zip_map1 list_all2_map2 case_prod_unfold)
qed

lemma in_win_nth:
  assumes "in_win cs ts idx" "length cs = length ts"
  shows "length idx = length ts" and "j < length ts \<Longrightarrow> cs ! j \<le> idx ! j \<and> idx ! j < cs ! j + ts ! j"
proof -
  from assms show l: "length idx = length ts"
    by (auto simp: in_win_def dest: list_all2_lengthD)
  assume "j < length ts"
  with assms l show "cs ! j \<le> idx ! j \<and> idx ! j < cs ! j + ts ! j"
    by (auto simp: in_win_def list_all2_conv_all_nth)
qed

lemma map2_int_diff:
  assumes "in_win cs ts idx" "length cs = length ts"
  shows "map2 (\<lambda>x c. int x - c) idx (map int cs) = map int (map2 (-) idx cs)"
proof (rule nth_equalityI)
  show "length (map2 (\<lambda>x c. int x - c) idx (map int cs)) = length (map int (map2 (-) idx cs))"
    by simp
next
  fix j assume "j < length (map2 (\<lambda>x c. int x - c) idx (map int cs))"
  then have j: "j < length idx" "j < length cs" by simp_all
  with in_win_nth[OF assms] have "cs ! j \<le> idx ! j" by simp
  with j show "map2 (\<lambda>x c. int x - c) idx (map int cs) ! j = map int (map2 (-) idx cs) ! j"
    by simp
qed

lemma in_win_shifted:
  assumes "in_win cs ts idx" "length cs = length ts"
  shows "list_all2 (<) (map2 (-) idx cs) ts"
proof (rule list_all2_all_nthI)
  show "length (map2 (-) idx cs) = length ts" using in_win_nth(1)[OF assms] assms(2) by simp
next
  fix j assume "j < length (map2 (-) idx cs)"
  then have j: "j < length idx" "j < length cs" by simp_all
  with in_win_nth[OF assms] assms(2) have "cs ! j \<le> idx ! j \<and> idx ! j < cs ! j + ts ! j" by simp
  with j show "map2 (-) idx cs ! j < ts ! j" by auto
qed

lemma backward_result:
  fixes top_diff bottom_diff :: "'a::zero list"
  assumes "Reshape p b0 b1 s = Inr s'" "offsets s' = map int cs" "length cs = length b0"
    "length (top_shape s') = length b0" "b0 \<noteq> []"
    "\<forall>j<length b0. cs ! j + top_shape s' ! j \<le> b0 ! j"
    and "length top_diff = count (top_shape s')"
    and "length bottom_diff = count b0"
  shows "Backward_cpu b0 (top_shape s') (offsets s') True top_diff bottom_diff
       = Inr \<lparr>data = scatter (top_shape s') b0 cs 0 top_diff, copies = count (top_shape s')\<rparr>"
proof -
  let ?T = "top_shape s'"
  let ?m = "\<lparr>data = replicate (count b0) (0::'a), copies = 0\<rparr>"
  have set: "caffe_set (count b0) 0 bottom_diff = Inr (replicate (count b0) 0)"
    using assms(8) by (simp add: caffe_set_def)
  have "crop_copy ([] @ b0) ([] @ ?T) (map int ([] @ cs)) (replicate (length ?T) 0) (length ([]::nat list))
          top_diff False ?m
      = Inr \<lparr>data = [] @ scatter ?T b0 cs (lin [] [] 0) top_diff @ [],
             copies = copies ?m + prod_list ?T\<rparr>"
    using assms by (intro crop_copy_backward) (auto simp: count_def)
  then show ?thesis using assms(2) set by (simp add: Backward_cpu_def count_def)
qed

lemmas copy_eval = Forward_cpu_def Backward_cpu_def crop_copy.simps crop_copy_row_def
  for_loop.simps shape_at_def CanonicalAxisIndex_def Blob_offset_def caffe_copy_def
  caffe_set_def count_def

section \<open>The region copier: the claims\<close>

text \<open>
  Claim C1 says that the forward pass is a windowed read after every successful \<open>Reshape\<close>.
  \<open>Reshape\<close> accepts the offset \<open>4294967295\<close> for a source of shape \<open>[5]\<close> and a reference of
  shape \<open>[3]\<close>, and stores it as \<open>-1\<close>; the forward pass then stops at the index check of
  \<^verbatim>\<open>Blob::offset\<close> and writes nothing.
\<close>

theorem forward_negative_offset_counterexample:
  "LayerSetUp \<lparr>axis = 0, offset = [4294967295]\<rparr> [[5], [3]] = Inr () \<and>
   Reshape \<lparr>axis = 0, offset = [4294967295]\<rparr> [5] [3] \<lparr>offsets = [], top_shape = []\<rparr>
     = Inr \<lparr>offsets = [-1], top_shape = [3]\<rparr> \<and>
   Forward_cpu [5] [3] [-1] [10, 11, 12, 13, 14::nat] [0, 0, 0] = Inl BlobIndexOutOfRange"
proof -
  have "LayerSetUp \<lparr>axis = 0, offset = [4294967295]\<rparr> [[5], [3]] = Inr ()"
    "Reshape \<lparr>axis = 0, offset = [4294967295]\<rparr> [5] [3] \<lparr>offsets = [], top_shape = []\<rparr>
       = Inr \<lparr>offsets = [-1], top_shape = [3]\<rparr>"
    by (simp_all add: reshape_eval)
  moreover have
    "Forward_cpu [5] [3] [-1] [10, 11, 12, 13, 14::nat] [0, 0, 0] = Inl BlobIndexOutOfRange"
    by (simp add: copy_eval)
  ultimately show ?thesis by simp
qed

text \<open>
  Claim C1, as the code has it. After a successful \<open>Reshape\<close> that leaves no negative offset
  (as it does when every configured offset is below \<open>2 ^ 31\<close>), with the source buffer and
  the output buffer of the sizes of their shapes, \<open>Forward_cpu\<close> returns; the output buffer keeps its size; for
  every multi-index within the output shape, the output's element at that index is the
  source's element at the index shifted by the offsets, and both positions lie in their
  buffers. The buffer is overwritten in full: every position of it is the position of a
  multi-index within the output shape, and the result is the same whatever the buffer held
  before.
\<close>

theorem forward_windowed_read:
  fixes bottom_data top_data :: "'a list"
  assumes "Reshape p b0 b1 s = Inr s'"
    and "length bottom_data = count b0"
    and "length top_data = count (top_shape s')"
    and "\<forall>c\<in>set (offsets s'). 0 \<le> c"
  shows "\<exists>out. Forward_cpu b0 (top_shape s') (offsets s') bottom_data top_data = Inr out \<and>
           length (data out) = count (top_shape s') \<and>
           (\<forall>idx. in_shape (top_shape s') idx \<longrightarrow>
              (\<exists>i_top i_bot.
                 Blob_offset (top_shape s') (map int idx) = Inr i_top \<and>
                 Blob_offset b0 (map2 (\<lambda>x c. int x + c) idx (offsets s')) = Inr i_bot \<and>
                 i_top < length (data out) \<and> i_bot < length bottom_data \<and>
                 data out ! i_top = bottom_data ! i_bot)) \<and>
           (\<forall>q<length (data out). \<exists>idx. in_shape (top_shape s') idx \<and>
                 Blob_offset (top_shape s') (map int idx) = Inr q) \<and>
           (\<forall>other. length other = count (top_shape s') \<longrightarrow>
              (\<exists>out'. Forward_cpu b0 (top_shape s') (offsets s') bottom_data other = Inr out' \<and>
                      data out' = data out))"
proof -
  let ?T = "top_shape s'"
  from assms(1,4) obtain cs where g: "offsets s' = map int cs" "length cs = length b0"
    "length ?T = length b0" "b0 \<noteq> []" "\<forall>j<length b0. cs ! j + ?T ! j \<le> b0 ! j"
    by (rule Reshape_geometry)
  let ?out = "\<lparr>data = window ?T b0 cs 0 bottom_data, copies = count ?T\<rparr>"
  have fw: "Forward_cpu b0 ?T (offsets s') bottom_data td = Inr ?out"
    if "length td = count ?T" for td :: "'a list"
    using assms(1) g assms(2) that by (rule forward_result)
  have len: "length (data ?out) = count ?T"
    using g by (simp add: length_window count_def)
  have elem: "\<exists>i_top i_bot.
                 Blob_offset ?T (map int idx) = Inr i_top \<and>
                 Blob_offset b0 (map2 (\<lambda>x c. int x + c) idx (offsets s')) = Inr i_bot \<and>
                 i_top < length (data ?out) \<and> i_bot < length bottom_data \<and>
                 data ?out ! i_top = bottom_data ! i_bot" if "in_shape ?T idx" for idx
  proof -
    from that have idx: "list_all2 (<) idx ?T" by (simp add: in_shape_def)
    then have li: "length idx = length ?T" by (rule list_all2_lengthD)
    have sh: "list_all2 (<) (map2 (+) idx cs) b0"
      using idx g(3)[symmetric] g(2) g(5) by (intro list_all2_shifted[of idx ?T]) simp_all
    have "Blob_offset ?T (map int idx) = Inr (lin ?T idx 0)"
      using idx li by (intro Blob_offset_lin) simp_all
    moreover have "Blob_offset b0 (map2 (\<lambda>x c. int x + c) idx (offsets s'))
        = Inr (lin b0 (map2 (+) idx cs) 0)"
      unfolding g(1) map2_int_add using sh li g(2,3) by (intro Blob_offset_lin) simp_all
    moreover have "lin ?T idx 0 < length (data ?out)"
      using lin_bound[OF idx] len by (simp add: count_def)
    moreover have "lin b0 (map2 (+) idx cs) 0 < length bottom_data"
      using lin_bound[OF sh] assms(2) by (simp add: count_def)
    moreover have "data ?out ! lin ?T idx 0 = bottom_data ! lin b0 (map2 (+) idx cs) 0"
      using window_nth[OF idx, of b0 cs 0 bottom_data] g(2,3) by simp
    ultimately show ?thesis by blast
  qed
  have onto: "\<exists>idx. in_shape ?T idx \<and> Blob_offset ?T (map int idx) = Inr q"
    if "q < length (data ?out)" for q
  proof -
    from that len have "q < prod_list ?T" by (simp add: count_def)
    from lin_onto[OF this] obtain idx where idx: "list_all2 (<) idx ?T" "lin ?T idx 0 = q" by blast
    then have "Blob_offset ?T (map int idx) = Inr q"
      using Blob_offset_lin[of idx ?T] list_all2_lengthD[OF idx(1)] by simp
    with idx(1) show ?thesis by (auto simp: in_shape_def)
  qed
  show ?thesis
    using fw[OF assms(3)] len elem onto fw by (intro exI[of _ ?out]) blast
qed

text \<open>
  The instance at the source \<open>[2, 3]\<close>, the reference \<open>[2, 2]\<close>, axis 1 and offset 1 (the
  offsets left are \<open>[0, 1]\<close>), at the multi-index \<open>[1, 0]\<close>.
\<close>

theorem forward_windowed_read_witness:
  "Reshape \<lparr>axis = 1, offset = [1]\<rparr> [2, 3] [2, 2] \<lparr>offsets = [], top_shape = []\<rparr>
     = Inr \<lparr>offsets = [0, 1], top_shape = [2, 2]\<rparr> \<and>
   length [10, 11, 12, 13, 14, 15::nat] = count [2, 3] \<and>
   length [0, 0, 0, 0::nat] = count [2, 2] \<and>
   list_all (\<lambda>c. 0 \<le> c) [0, 1::int] \<and>
   in_shape [2, 2] [1, 0] \<and>
   Forward_cpu [2, 3] [2, 2] [0, 1] [10, 11, 12, 13, 14, 15::nat] [0, 0, 0, 0]
     = Inr \<lparr>data = [11, 12, 14, 15], copies = 4\<rparr> \<and>
   Blob_offset [2, 2] (map int [1, 0]) = Inr 2 \<and>
   Blob_offset [2, 3] (map2 (\<lambda>x c. int x + c) [1, 0] [0, 1]) = Inr 4 \<and>
   [11, 12, 14, 15::nat] ! 2 = [10, 11, 12, 13, 14, 15] ! 4"
proof -
  let ?s' = "\<lparr>offsets = [0, 1], top_shape = [2, 2]\<rparr>"
  have h1: "Reshape \<lparr>axis = 1, offset = [1]\<rparr> [2, 3] [2, 2] \<lparr>offsets = [], top_shape = []\<rparr>
     = Inr ?s'"
    by (simp add: reshape_eval)
  have h2: "length [10, 11, 12, 13, 14, 15::nat] = count [2, 3]" by (simp add: count_def)
  have h3: "length [0, 0, 0, 0::nat] = count (top_shape ?s')" by (simp add: count_def)
  have h4: "in_shape [2, 2] [1, 0]" by (simp add: in_shape_def)
  have h5: "\<forall>c\<in>set (offsets ?s'). 0 \<le> c" by simp
  have ev: "Forward_cpu [2, 3] [2, 2] [0, 1] [10, 11, 12, 13, 14, 15::nat] [0, 0, 0, 0]
     = Inr \<lparr>data = [11, 12, 14, 15], copies = 4\<rparr>"
    by (simp add: copy_eval)
  from forward_windowed_read[OF h1 h2 h3 h5]
  obtain out where "Forward_cpu [2, 3] [2, 2] [0, 1] [10, 11, 12, 13, 14, 15::nat] [0, 0, 0, 0] = Inr out"
    and "\<forall>idx. in_shape [2, 2] idx \<longrightarrow>
          (\<exists>i_top i_bot. Blob_offset [2, 2] (map int idx) = Inr i_top \<and>
               Blob_offset [2, 3] (map2 (\<lambda>x c. int x + c) idx [0, 1]) = Inr i_bot \<and>
               i_top < length (data out) \<and> i_bot < length [10, 11, 12, 13, 14, 15::nat] \<and>
               data out ! i_top = [10, 11, 12, 13, 14, 15] ! i_bot)"
    by auto
  with h4 ev have "\<exists>i_top i_bot. Blob_offset [2, 2] (map int [1, 0]) = Inr i_top \<and>
               Blob_offset [2, 3] (map2 (\<lambda>x c. int x + c) [1, 0] [0, 1]) = Inr i_bot \<and>
               [11, 12, 14, 15::nat] ! i_top = [10, 11, 12, 13, 14, 15] ! i_bot"
    by fastforce
  moreover have "Blob_offset [2, 2] (map int [1, 0]) = Inr 2"
    "Blob_offset [2, 3] (map2 (\<lambda>x c. int x + c) [1, 0] [0, 1]) = Inr 4"
    by (simp_all add: Blob_offset_def)
  ultimately show ?thesis using h1 h2 h3 h4 ev by simp
qed

text \<open>
  Claim C2 says that the backward pass scatters the gradient after every successful
  \<open>Reshape\<close>. In the state that \<open>Reshape\<close> leaves for the offset \<open>4294967295\<close>, a source of
  shape \<open>[5]\<close> and a reference of shape \<open>[3]\<close> (the offsets are \<open>[-1]\<close>), the backward pass
  stops at the index check of \<^verbatim>\<open>Blob::offset\<close>, after the zero fill.
\<close>

theorem backward_negative_offset_counterexample:
  "Reshape \<lparr>axis = 0, offset = [4294967295]\<rparr> [5] [3] \<lparr>offsets = [], top_shape = []\<rparr>
     = Inr \<lparr>offsets = [-1], top_shape = [3]\<rparr> \<and>
   Backward_cpu [5] [3] [-1] True [1, 2, 3::int] [9, 9, 9, 9, 9] = Inl BlobIndexOutOfRange"
proof -
  have "Reshape \<lparr>axis = 0, offset = [4294967295]\<rparr> [5] [3] \<lparr>offsets = [], top_shape = []\<rparr>
       = Inr \<lparr>offsets = [-1], top_shape = [3]\<rparr>"
    by (simp add: reshape_eval)
  moreover have
    "Backward_cpu [5] [3] [-1] True [1, 2, 3::int] [9, 9, 9, 9, 9] = Inl BlobIndexOutOfRange"
    by (simp add: copy_eval)
  ultimately show ?thesis by simp
qed

text \<open>
  Claim C2, as the code has it. After a successful \<open>Reshape\<close> that leaves no negative offset
  (as it does when every configured offset is below \<open>2 ^ 31\<close>), with the gradient buffers of
  the sizes of their shapes and the propagate flag true, \<open>Backward_cpu\<close> returns a gradient of the source's size.
  At every multi-index within the source shape: inside the window it holds the output
  gradient's element at the index shifted back by the offsets, and outside the window it is
  zero.
\<close>

theorem backward_adjoint:
  fixes top_diff bottom_diff :: "'a::zero list"
  assumes "Reshape p b0 b1 s = Inr s'"
    and "length top_diff = count (top_shape s')"
    and "length bottom_diff = count b0"
    and "\<forall>c\<in>set (offsets s'). 0 \<le> c"
  shows "\<exists>out. Backward_cpu b0 (top_shape s') (offsets s') True top_diff bottom_diff = Inr out \<and>
           length (data out) = count b0 \<and>
           (\<forall>idx. in_shape b0 idx \<longrightarrow>
              (\<exists>i_bot. Blob_offset b0 (map int idx) = Inr i_bot \<and> i_bot < length (data out) \<and>
                 (if in_window (offsets s') (top_shape s') idx
                  then \<exists>i_top.
                         Blob_offset (top_shape s') (map2 (\<lambda>x c. int x - c) idx (offsets s'))
                           = Inr i_top \<and>
                         i_top < length top_diff \<and> data out ! i_bot = top_diff ! i_top
                  else data out ! i_bot = 0)))"
proof -
  let ?T = "top_shape s'"
  from assms(1,4) obtain cs where g: "offsets s' = map int cs" "length cs = length b0"
    "length ?T = length b0" "b0 \<noteq> []" "\<forall>j<length b0. cs ! j + ?T ! j \<le> b0 ! j"
    by (rule Reshape_geometry)
  let ?out = "\<lparr>data = scatter ?T b0 cs 0 top_diff, copies = count ?T\<rparr>"
  have bw: "Backward_cpu b0 ?T (offsets s') True top_diff bottom_diff = Inr ?out"
    using assms(1) g assms(2,3) by (rule backward_result)
  have len: "length (data ?out) = count b0"
    using g by (simp add: length_scatter count_def)
  have elem: "\<exists>i_bot. Blob_offset b0 (map int idx) = Inr i_bot \<and> i_bot < length (data ?out) \<and>
                 (if in_window (offsets s') ?T idx
                  then \<exists>i_top.
                         Blob_offset ?T (map2 (\<lambda>x c. int x - c) idx (offsets s')) = Inr i_top \<and>
                         i_top < length top_diff \<and> data ?out ! i_bot = top_diff ! i_top
                  else data ?out ! i_bot = 0)" if "in_shape b0 idx" for idx
  proof -
    from that have idx: "list_all2 (<) idx b0" by (simp add: in_shape_def)
    then have li: "length idx = length b0" by (rule list_all2_lengthD)
    have lct: "length cs = length ?T" using g(2,3) by simp
    have ob: "Blob_offset b0 (map int idx) = Inr (lin b0 idx 0)"
      using idx li by (intro Blob_offset_lin) simp_all
    have lb: "lin b0 idx 0 < length (data ?out)"
      using lin_bound[OF idx] len by (simp add: count_def)
    have val: "data ?out ! lin b0 idx 0
        = (if in_win cs ?T idx then top_diff ! lin ?T (map2 (-) idx cs) 0 else 0)"
      using scatter_nth[OF idx g(3) g(2) g(5), of 0 top_diff] by simp
    show ?thesis
    proof (cases "in_win cs ?T idx")
      case True
      have sh: "list_all2 (<) (map2 (-) idx cs) ?T" using True lct by (rule in_win_shifted)
      have "Blob_offset ?T (map2 (\<lambda>x c. int x - c) idx (offsets s'))
          = Inr (lin ?T (map2 (-) idx cs) 0)"
        unfolding g(1) map2_int_diff[OF True lct]
        using sh list_all2_lengthD[OF sh] by (intro Blob_offset_lin) simp_all
      moreover have "lin ?T (map2 (-) idx cs) 0 < length top_diff"
        using lin_bound[OF sh] assms(2) by (simp add: count_def)
      ultimately show ?thesis using True ob lb val by (simp add: g(1) in_window_int)
    next
      case False
      then show ?thesis using ob lb val by (simp add: g(1) in_window_int)
    qed
  qed
  show ?thesis using bw len elem by (intro exI[of _ ?out]) blast
qed

text \<open>
  The instance at the same configuration, at the multi-index \<open>[1, 2]\<close> inside the window and
  at \<open>[1, 0]\<close> outside it.
\<close>

theorem backward_adjoint_witness:
  "Reshape \<lparr>axis = 1, offset = [1]\<rparr> [2, 3] [2, 2] \<lparr>offsets = [], top_shape = []\<rparr>
     = Inr \<lparr>offsets = [0, 1], top_shape = [2, 2]\<rparr> \<and>
   length [1, 2, 3, 4::int] = count [2, 2] \<and>
   length [9, 9, 9, 9, 9, 9::int] = count [2, 3] \<and>
   list_all (\<lambda>c. 0 \<le> c) [0, 1::int] \<and>
   in_shape [2, 3] [1, 2] \<and> in_window [0, 1] [2, 2] [1, 2] \<and>
   in_shape [2, 3] [1, 0] \<and> \<not> in_window [0, 1] [2, 2] [1, 0] \<and>
   Backward_cpu [2, 3] [2, 2] [0, 1] True [1, 2, 3, 4::int] [9, 9, 9, 9, 9, 9]
     = Inr \<lparr>data = [0, 1, 2, 0, 3, 4], copies = 4\<rparr> \<and>
   Blob_offset [2, 3] (map int [1, 2]) = Inr 5 \<and>
   Blob_offset [2, 2] (map2 (\<lambda>x c. int x - c) [1, 2] [0, 1]) = Inr 3 \<and>
   [0, 1, 2, 0, 3, 4::int] ! 5 = [1, 2, 3, 4] ! 3 \<and>
   Blob_offset [2, 3] (map int [1, 0]) = Inr 3 \<and>
   [0, 1, 2, 0, 3, 4::int] ! 3 = 0"
proof -
  let ?s' = "\<lparr>offsets = [0, 1], top_shape = [2, 2]\<rparr>"
  have h1: "Reshape \<lparr>axis = 1, offset = [1]\<rparr> [2, 3] [2, 2] \<lparr>offsets = [], top_shape = []\<rparr>
     = Inr ?s'"
    by (simp add: reshape_eval)
  have h2: "length [1, 2, 3, 4::int] = count (top_shape ?s')" by (simp add: count_def)
  have h3: "length [9, 9, 9, 9, 9, 9::int] = count [2, 3]" by (simp add: count_def)
  have h4: "in_shape [2, 3] [1, 2]" "in_window [0, 1] [2, 2] [1, 2]"
    "in_shape [2, 3] [1, 0]" "\<not> in_window [0, 1] [2, 2] [1, 0]"
    by (simp_all add: in_shape_def in_window_def)
  have h5: "\<forall>c\<in>set (offsets ?s'). 0 \<le> c" by simp
  have ev: "Backward_cpu [2, 3] [2, 2] [0, 1] True [1, 2, 3, 4::int] [9, 9, 9, 9, 9, 9]
     = Inr \<lparr>data = [0, 1, 2, 0, 3, 4], copies = 4\<rparr>"
    by (simp add: copy_eval eval_nat_numeral)
  have ix: "Blob_offset [2, 3] (map int [1, 2]) = Inr 5"
    "Blob_offset [2, 2] (map2 (\<lambda>x c. int x - c) [1, 2] [0, 1]) = Inr 3"
    "Blob_offset [2, 3] (map int [1, 0]) = Inr 3"
    by (simp_all add: Blob_offset_def)
  from backward_adjoint[OF h1 h2 h3 h5]
  obtain out where out: "Backward_cpu [2, 3] (top_shape ?s') (offsets ?s') True
        [1, 2, 3, 4::int] [9, 9, 9, 9, 9, 9] = Inr out"
    and el: "\<forall>idx. in_shape [2, 3] idx \<longrightarrow>
          (\<exists>i_bot. Blob_offset [2, 3] (map int idx) = Inr i_bot \<and> i_bot < length (data out) \<and>
             (if in_window (offsets ?s') (top_shape ?s') idx
              then \<exists>i_top. Blob_offset (top_shape ?s') (map2 (\<lambda>x c. int x - c) idx (offsets ?s'))
                       = Inr i_top \<and>
                     i_top < length [1, 2, 3, 4::int] \<and> data out ! i_bot = [1, 2, 3, 4] ! i_top
              else data out ! i_bot = 0))"
    by blast
  have "data out ! 5 = [1, 2, 3, 4] ! 3"
    using el[rule_format, OF h4(1)] h4(2) ix(1,2) by auto
  moreover have "data out ! 3 = 0"
    using el[rule_format, OF h4(3)] h4(4) ix(3) by auto
  ultimately show ?thesis using out h1 h2 h3 h4 ev ix by simp
qed

text \<open>
  Claim C5 says that the copier makes as many bulk copies as the output has elements divided
  by the last extent, one for a tensor of rank 1. The loop at the last dimension (line 96)
  runs once per element of the row and copies the whole row each time: for a source of shape
  \<open>[5]\<close> cropped to \<open>[3]\<close> it makes three bulk copies of three elements, where the claim
  has one.
\<close>

theorem rank1_copies_three:
  "Reshape \<lparr>axis = 0, offset = [1]\<rparr> [5] [3] \<lparr>offsets = [], top_shape = []\<rparr>
     = Inr \<lparr>offsets = [1], top_shape = [3]\<rparr> \<and>
   Forward_cpu [5] [3] [1] [10, 11, 12, 13, 14::nat] [0, 0, 0]
     = Inr \<lparr>data = [11, 12, 13], copies = 3\<rparr> \<and>
   count [3] div last [3] = 1"
proof -
  have "Reshape \<lparr>axis = 0, offset = [1]\<rparr> [5] [3] \<lparr>offsets = [], top_shape = []\<rparr>
     = Inr \<lparr>offsets = [1], top_shape = [3]\<rparr>"
    by (simp add: reshape_eval)
  moreover have "Forward_cpu [5] [3] [1] [10, 11, 12, 13, 14::nat] [0, 0, 0]
     = Inr \<lparr>data = [11, 12, 13], copies = 3\<rparr>"
    by (simp add: copy_eval)
  moreover have "count [3] div last [3] = 1" by (simp add: count_def)
  ultimately show ?thesis by simp
qed

text \<open>
  The number of bulk copies of a forward pass, for every configuration that \<open>Reshape\<close>
  accepts without a negative offset: the number of elements of the output.
\<close>

lemma forward_copy_count:
  fixes bottom_data top_data :: "'a list"
  assumes "Reshape p b0 b1 s = Inr s'"
    and "length bottom_data = count b0"
    and "length top_data = count (top_shape s')"
    and "\<forall>c\<in>set (offsets s'). 0 \<le> c"
  shows "\<exists>out. Forward_cpu b0 (top_shape s') (offsets s') bottom_data top_data = Inr out \<and>
           copies out = count (top_shape s')"
proof -
  from assms(1,4) obtain cs where g: "offsets s' = map int cs" "length cs = length b0"
    "length (top_shape s') = length b0" "b0 \<noteq> []"
    "\<forall>j<length b0. cs ! j + top_shape s' ! j \<le> b0 ! j"
    by (rule Reshape_geometry)
  from forward_result[OF assms(1) g assms(2,3)] show ?thesis by simp
qed

end
